theory Spec2Isabelle
  imports Complex_Main
begin

section \<open>JavaScript values\<close>

text \<open>
  A JavaScript number is modelled as the \<open>real\<close> it denotes, with division and multiplication
  rounded to the nearest double as IEEE 754 does (see \<open>fdiv\<close> and \<open>fmul\<close> below); dates are
  \<open>int\<close> milliseconds since the epoch, objects association lists in property order.
  \<open>JUndefined\<close> is what reading a missing property yields.
\<close>

datatype json =
    JUndefined
  | JNull
  | JBool bool
  | JNum real
  | JStr string
  | JDate int
  | JArr "json list"
  | JObj "(string \<times> json) list"

type_synonym obj = "(string \<times> json) list"

text \<open>Truthiness, as \<open>if (x)\<close>, \<open>x || y\<close> and \<open>x && y\<close> test it.\<close>

fun truthy :: "json \<Rightarrow> bool" where
  "truthy JUndefined = False"
| "truthy JNull = False"
| "truthy (JBool b) = b"
| "truthy (JNum x) = (x \<noteq> 0)"
| "truthy (JStr s) = (s \<noteq> [])"
| "truthy (JDate t) = True"
| "truthy (JArr xs) = True"
| "truthy (JObj kvs) = True"

text \<open>
  \<open>Map.prototype.get/set/delete\<close> and property reads and writes on an object: a key that
  is already present keeps its position on \<open>set\<close>, a new key goes to the end.
\<close>

fun mapGet :: "('k \<times> 'v) list \<Rightarrow> 'k \<Rightarrow> 'v option" where
  "mapGet [] k = None"
| "mapGet ((k', v) # kvs) k = (if k' = k then Some v else mapGet kvs k)"

fun mapSet :: "'k \<Rightarrow> 'v \<Rightarrow> ('k \<times> 'v) list \<Rightarrow> ('k \<times> 'v) list" where
  "mapSet k v [] = [(k, v)]"
| "mapSet k v ((k', v') # kvs) = (if k' = k then (k, v) # kvs else (k', v') # mapSet k v kvs)"

fun mapDelete :: "'k \<Rightarrow> ('k \<times> 'v) list \<Rightarrow> ('k \<times> 'v) list" where
  "mapDelete k [] = []"
| "mapDelete k ((k', v') # kvs) = (if k' = k then kvs else (k', v') # mapDelete k kvs)"

definition mapKeys :: "('k \<times> 'v) list \<Rightarrow> 'k list" where
  "mapKeys kvs = map fst kvs"

definition field :: "obj \<Rightarrow> string \<Rightarrow> json" where
  "field data k = (case mapGet data k of None \<Rightarrow> JUndefined | Some v \<Rightarrow> v)"

text \<open>\<open>Math.round\<close>: nearest integer, a tie going towards plus infinity.\<close>

definition Math_round :: "real \<Rightarrow> real" where
  "Math_round x = of_int \<lfloor>x + 1 / 2\<rfloor>"

text \<open>
  \<open>a % b\<close> on numbers, for \<open>b \<noteq> 0\<close>: the remainder has the sign of the dividend. The
  remainder of two doubles is a double, so nothing is rounded here.
\<close>

definition jsTrunc :: "real \<Rightarrow> int" where
  "jsTrunc x = (if 0 \<le> x then \<lfloor>x\<rfloor> else \<lceil>x\<rceil>)"

definition jsRem :: "real \<Rightarrow> real \<Rightarrow> real" where
  "jsRem a b = a - b * of_int (jsTrunc (a / b))"

text \<open>
  Double-precision arithmetic. \<open>expo x\<close> is the binary exponent of a positive \<open>x\<close>
  (\<open>2 ^ expo x \<le> x < 2 ^ (expo x + 1)\<close>), found from the bit length of \<open>\<lfloor>x\<rfloor>\<close> or of
  \<open>\<lceil>1 / x\<rceil> - 1\<close>; \<open>ulp x\<close> is the spacing of the doubles around \<open>x\<close>: 52 fraction bits below
  the exponent, and the fixed spacing of the subnormal numbers below \<open>2 ^ -1022\<close>. \<open>fl\<close> rounds
  a real to the nearest double, a tie going to the even significand; \<open>a / b\<close> and \<open>a * b\<close> of
  the source are \<open>fdiv a b\<close> and \<open>fmul a b\<close>. Results beyond the largest double, where the
  source has \<open>Infinity\<close>, are kept as the finite value that the rounding gives.
\<close>

fun bitLength :: "nat \<Rightarrow> nat" where
  "bitLength n = (if n = 0 then 0 else Suc (bitLength (n div 2)))"

declare bitLength.simps [simp del]

definition expo :: "real \<Rightarrow> int" where
  "expo x = (if 1 \<le> x then int (bitLength (nat \<lfloor>x\<rfloor>)) - 1
             else - int (bitLength (nat (\<lceil>1 / x\<rceil> - 1))))"

definition roundEven :: "real \<Rightarrow> int" where
  "roundEven x =
    (let f = \<lfloor>x\<rfloor>; d = x - of_int f
     in if d < 1 / 2 then f else if 1 / 2 < d then f + 1 else if even f then f else f + 1)"

definition ulp :: "real \<Rightarrow> real" where
  "ulp x = 2 powi (max (expo x) (- 1022) - 52)"

definition fl :: "real \<Rightarrow> real" where
  "fl x = (if x = 0 then 0
           else sgn x * of_int (roundEven (\<bar>x\<bar> / ulp \<bar>x\<bar>)) * ulp \<bar>x\<bar>)"

definition fdiv :: "real \<Rightarrow> real \<Rightarrow> real" where
  "fdiv a b = fl (a / b)"

definition fmul :: "real \<Rightarrow> real \<Rightarrow> real" where
  "fmul a b = fl (a * b)"


section \<open>The goal model (models/Goal.js)\<close>

datatype goal_type = Target | Habit | Milestone

datatype goal_status = Active | Paused | Completed | Cancelled | Failed

record milestone =
  mvalue :: real
  achievedAt :: int
  mnote :: "string option"

record progress =
  current :: "real option"
  percentage :: real
  lastUpdated :: int
  milestones :: "milestone list"

record reminders =
  enabled :: "bool option"
  frequency :: "string option"
  rtime :: "string option"
  days :: "string list option"
  message :: "string option"

text \<open>
  The fields of the schema that the transition methods and the goal routes read or write.
  \<open>targetValue\<close> is \<open>target.value\<close>; \<open>None\<close> stands for \<open>undefined\<close>.
\<close>

record goal =
  gid :: string
  user :: string
  title :: string
  description :: "string option"
  gtype :: goal_type
  targetValue :: "real option"
  priority :: string
  status :: goal_status
  progress :: progress
  greminders :: "reminders option"
  tags :: "string list"
  isPublic :: bool
  completedAt :: "int option"
  gnotes :: "string option"

text \<open>A string that may be \<open>null\<close> or \<open>undefined\<close> is truthy when present and non-empty.\<close>

definition truthyStr :: "string option \<Rightarrow> bool" where
  "truthyStr s = (case s of None \<Rightarrow> False | Some t \<Rightarrow> t \<noteq> [])"

text \<open>
  \<open>goalSchema.pre('save')\<close>. The guard \<open>this.target.value && this.progress.current !== undefined\<close>
  is the two \<open>case\<close>s and the test \<open>t \<noteq> 0\<close>; the quotient and the product are each rounded
  to a double.
\<close>

definition preSave :: "int \<Rightarrow> goal \<Rightarrow> goal" where
  "preSave now g =
    (let g1 =
       (case (targetValue g, current (progress g)) of
          (Some t, Some c) \<Rightarrow>
            if gtype g = Target \<and> t \<noteq> 0 then
              (let g' = g\<lparr>progress := (progress g)\<lparr>percentage := min (Math_round (fmul (fdiv c t) 100)) 100\<rparr>\<rparr>
               in if percentage (progress g') \<ge> 100 \<and> status g' = Active
                  then g'\<lparr>status := Completed, completedAt := Some now\<rparr>
                  else g')
            else g
        | _ \<Rightarrow> g)
     in g1\<lparr>progress := (progress g1)\<lparr>lastUpdated := now\<rparr>\<rparr>)"

text \<open>\<open>goalSchema.methods.updateProgress(newValue, note = null)\<close>; \<open>save()\<close> runs the hook.\<close>

definition updateProgress :: "real \<Rightarrow> string option \<Rightarrow> int \<Rightarrow> goal \<Rightarrow> goal" where
  "updateProgress newValue note' now g =
    (let g1 = g\<lparr>progress := (progress g)\<lparr>current := Some newValue, lastUpdated := now\<rparr>\<rparr>;
         g2 = (if truthyStr note' \<or> jsRem newValue 10 = 0
               then g1\<lparr>progress := (progress g1)\<lparr>milestones := milestones (progress g1) @
                      [\<lparr>mvalue = newValue, achievedAt = now, mnote = note'\<rparr>]\<rparr>\<rparr>
               else g1)
     in preSave now g2)"

text \<open>\<open>goalSchema.methods.complete(note = null)\<close>.\<close>

definition complete :: "string option \<Rightarrow> int \<Rightarrow> goal \<Rightarrow> goal" where
  "complete note' now g =
    (let g1 = g\<lparr>status := Completed, completedAt := Some now,
                 progress := (progress g)\<lparr>percentage := 100\<rparr>\<rparr>;
         g2 = (case note' of
                 Some n \<Rightarrow>
                   if n \<noteq> [] then
                     g1\<lparr>gnotes := Some (if truthyStr (gnotes g1)
                                       then (case gnotes g1 of Some old \<Rightarrow> old | None \<Rightarrow> [])
                                            @ [CHR 0x0A, CHR 0x0A] @ ''Completed: '' @ n
                                       else ''Completed: '' @ n)\<rparr>
                   else g1
               | None \<Rightarrow> g1)
     in preSave now g2)"

text \<open>\<open>goalSchema.methods.pause(reason = null)\<close>.\<close>

definition pause :: "string option \<Rightarrow> int \<Rightarrow> goal \<Rightarrow> goal" where
  "pause reason now g =
    (let g1 = g\<lparr>status := Paused\<rparr>;
         g2 = (case reason of
                 Some r \<Rightarrow>
                   if r \<noteq> [] then
                     g1\<lparr>gnotes := Some (if truthyStr (gnotes g1)
                                       then (case gnotes g1 of Some old \<Rightarrow> old | None \<Rightarrow> [])
                                            @ [CHR 0x0A, CHR 0x0A] @ ''Paused: '' @ r
                                       else ''Paused: '' @ r)\<rparr>
                   else g1
               | None \<Rightarrow> g1)
     in preSave now g2)"

text \<open>\<open>goalSchema.methods.resume()\<close>.\<close>

definition resume :: "int \<Rightarrow> goal \<Rightarrow> goal" where
  "resume now g = preSave now (g\<lparr>status := Active\<rparr>)"

text \<open>The percentage as the specification words it, for goals of type target.\<close>

definition clamp :: "real \<Rightarrow> real \<Rightarrow> real \<Rightarrow> real" where
  "clamp x lo hi = max lo (min x hi)"

definition spec_percentage :: "real \<Rightarrow> real \<Rightarrow> real" where
  "spec_percentage t v = clamp (of_int (round (v / t * 100))) 0 100"

text \<open>The same formula with the division and the multiplication of JavaScript numbers.\<close>

definition double_percentage :: "real \<Rightarrow> real \<Rightarrow> real" where
  "double_percentage t v = clamp (of_int (round (fmul (fdiv v t) 100))) 0 100"


section \<open>The socket handler (socket/socketHandler.js)\<close>

text \<open>
  A socket carries its id and the \<open>userId\<close> that \<open>authenticateSocket\<close> stored on it; the user
  document (\<open>socket.user\<close>) is not modelled. A registry entry keeps the socket itself, as the
  source does.
\<close>

record sock =
  sid :: string
  userId :: string

record connection =
  socketId :: string
  socket :: sock
  connectedAt :: int
  lastActivity :: "int option"
  cstatus :: "json option"

record frame =
  recipient :: string
  event :: string
  payload :: obj

text \<open>
  The state of the process: the module-level \<open>activeConnections\<close> map (in insertion order), the
  sockets that are connected (each one joined, on connection, to the room of its user and to
  no other user's room), and every frame delivered so far, oldest first.
\<close>

record server =
  activeConnections :: "(string \<times> connection) list"
  sockets :: "sock list"
  outbox :: "frame list"

definition initServer :: server where
  "initServer = \<lparr>activeConnections = [], sockets = [], outbox = []\<rparr>"

text \<open>The members of the room \<open>user:<u>\<close>: the connected sockets of user \<open>u\<close>.\<close>

definition roomMembers :: "server \<Rightarrow> string \<Rightarrow> sock list" where
  "roomMembers st u = filter (\<lambda>r. userId r = u) (sockets st)"

text \<open>\<open>socket.emit(ev, data)\<close>: one frame to that socket; a socket that is closed receives nothing.\<close>

definition emit :: "sock \<Rightarrow> string \<Rightarrow> obj \<Rightarrow> server \<Rightarrow> server" where
  "emit s ev data st =
    (if s \<in> set (sockets st)
     then st\<lparr>outbox := outbox st @ [\<lparr>recipient = sid s, event = ev, payload = data\<rparr>]\<rparr>
     else st)"

text \<open>\<open>socket.to(`user:${u}`).emit(ev, data)\<close>: every member of the room but the sender.\<close>

definition toRoomEmit :: "sock \<Rightarrow> string \<Rightarrow> string \<Rightarrow> obj \<Rightarrow> server \<Rightarrow> server" where
  "toRoomEmit s u ev data st =
    st\<lparr>outbox := outbox st @
         map (\<lambda>r. \<lparr>recipient = sid r, event = ev, payload = data\<rparr>)
             (filter (\<lambda>r. sid r \<noteq> sid s) (roomMembers st u))\<rparr>"

text \<open>\<open>io.on('connection', ...)\<close> up to the welcome message.\<close>

definition onConnection :: "sock \<Rightarrow> int \<Rightarrow> server \<Rightarrow> server" where
  "onConnection s now st =
    (let st1 = st\<lparr>sockets := sockets st @ [s]\<rparr>;
         st2 = st1\<lparr>activeConnections :=
                 mapSet (userId s)
                   \<lparr>socketId = sid s, socket = s, connectedAt = now,
                    lastActivity = None, cstatus = None\<rparr>
                   (activeConnections st1)\<rparr>
     in emit s ''connected''
          [(''message'', JStr ''Connected to LifeFit real-time server''),
           (''userId'', JStr (userId s)),
           (''timestamp'', JDate now)] st2)"

text \<open>The frames a client may send; each handler receives an object \<open>data\<close>.\<close>

datatype inbound =
    HealthDataUpdate obj
  | GoalProgress obj
  | WorkoutStart obj
  | WorkoutUpdate obj
  | WorkoutComplete obj
  | NotificationRead obj
  | TypingStart obj
  | TypingStop obj
  | SyncRequest obj
  | SyncResponse obj
  | PresenceUpdate obj
  | CustomEvent obj

text \<open>\<open>{...data, k: id, timestamp: now}\<close>.\<close>

definition stamped :: "obj \<Rightarrow> string \<Rightarrow> sock \<Rightarrow> int \<Rightarrow> obj" where
  "stamped data k s now = mapSet ''timestamp'' (JDate now) (mapSet k (JStr (sid s)) data)"

fun onMessage :: "sock \<Rightarrow> inbound \<Rightarrow> int \<Rightarrow> server \<Rightarrow> server" where
  "onMessage s (HealthDataUpdate data) now st =
     toRoomEmit s (userId s) ''health-data:updated'' (stamped data ''updatedBy'' s now) st"
| "onMessage s (GoalProgress data) now st =
     (let st1 = toRoomEmit s (userId s) ''goal:progress-updated'' (stamped data ''updatedBy'' s now) st
      in if truthy (field data ''completed'')
         then emit s ''goal:completed''
                [(''goalId'', field data ''goalId''), (''title'', field data ''title''),
                 (''completedAt'', JDate now), (''celebration'', JBool True)] st1
         else st1)"
| "onMessage s (WorkoutStart data) now st =
     toRoomEmit s (userId s) ''workout:started'' (stamped data ''startedBy'' s now) st"
| "onMessage s (WorkoutUpdate data) now st =
     toRoomEmit s (userId s) ''workout:updated'' (stamped data ''updatedBy'' s now) st"
| "onMessage s (WorkoutComplete data) now st =
     (let st1 = toRoomEmit s (userId s) ''workout:completed'' (stamped data ''completedBy'' s now) st
      in emit s ''workout:celebration''
           [(''workoutId'', field data ''workoutId''), (''duration'', field data ''duration''),
            (''caloriesBurned'', field data ''caloriesBurned''), (''completedAt'', JDate now)] st1)"
| "onMessage s (NotificationRead data) now st =
     toRoomEmit s (userId s) ''notification:marked-read''
       [(''notificationId'', field data ''notificationId''), (''readBy'', JStr (sid s)),
        (''timestamp'', JDate now)] st"
| "onMessage s (TypingStart data) now st =
     toRoomEmit s (userId s) ''typing:user-started''
       [(''userId'', JStr (userId s)), (''context'', field data ''context''),
        (''timestamp'', JDate now)] st"
| "onMessage s (TypingStop data) now st =
     toRoomEmit s (userId s) ''typing:user-stopped''
       [(''userId'', JStr (userId s)), (''context'', field data ''context''),
        (''timestamp'', JDate now)] st"
| "onMessage s (SyncRequest data) now st =
     toRoomEmit s (userId s) ''sync:requested''
       [(''requestedBy'', JStr (sid s)), (''dataTypes'', field data ''dataTypes''),
        (''timestamp'', JDate now)] st"
| "onMessage s (SyncResponse data) now st =
     toRoomEmit s (userId s) ''sync:data'' (stamped data ''respondedBy'' s now) st"
| "onMessage s (PresenceUpdate data) now st =
     (let st1 =
        (case mapGet (activeConnections st) (userId s) of
           Some c \<Rightarrow>
             st\<lparr>activeConnections :=
                  mapSet (userId s)
                    (c\<lparr>lastActivity := Some now,
                       cstatus := Some (if truthy (field data ''status'')
                                        then field data ''status'' else JStr ''active'')\<rparr>)
                    (activeConnections st)\<rparr>
         | None \<Rightarrow> st)
      in toRoomEmit s (userId s) ''presence:updated''
           [(''userId'', JStr (userId s)), (''status'', field data ''status''),
            (''lastActivity'', JDate now)] st1)"
| "onMessage s (CustomEvent data) now st =
     (if truthy (field data ''type'') \<and> truthy (field data ''payload'')
      then toRoomEmit s (userId s) ''custom:event''
             [(''type'', field data ''type''), (''payload'', field data ''payload''),
              (''from'', JStr (sid s)), (''timestamp'', JDate now)] st
      else st)"

text \<open>
  \<open>socket.on('disconnect', ...)\<close>: the socket has left its rooms when the handler runs; the
  handler deletes the entry of the socket's user, whichever socket that entry holds.
\<close>

definition onDisconnect :: "sock \<Rightarrow> string \<Rightarrow> int \<Rightarrow> server \<Rightarrow> server" where
  "onDisconnect s reason now st =
    (let st1 = st\<lparr>sockets := filter (\<lambda>r. sid r \<noteq> sid s) (sockets st)\<rparr>;
         st2 = st1\<lparr>activeConnections := mapDelete (userId s) (activeConnections st1)\<rparr>
     in toRoomEmit s (userId s) ''device:disconnected''
          [(''socketId'', JStr (sid s)), (''reason'', JStr reason), (''timestamp'', JDate now)] st2)"

text \<open>\<open>socket.disconnect(true)\<close> from the server: nothing happens on a socket already closed.\<close>

definition serverDisconnect :: "sock \<Rightarrow> int \<Rightarrow> server \<Rightarrow> server" where
  "serverDisconnect s now st =
    (if s \<in> set (sockets st) then onDisconnect s ''server namespace disconnect'' now st else st)"

text \<open>
  The periodic cleanup. The \<open>for ... of\<close> loop walks the live map: the keys present when the
  loop starts are visited in order, and a key deleted before its turn is skipped.
\<close>

definition inactiveThreshold :: int where
  "inactiveThreshold = 30 * 60 * 1000"

definition cleanupInterval :: int where
  "cleanupInterval = 5 * 60 * 1000"

definition lastActivityOf :: "connection \<Rightarrow> int" where
  "lastActivityOf c = (case lastActivity c of Some t \<Rightarrow> t | None \<Rightarrow> connectedAt c)"

fun cleanupLoop :: "int \<Rightarrow> string list \<Rightarrow> server \<Rightarrow> server" where
  "cleanupLoop now [] st = st"
| "cleanupLoop now (u # us) st =
     (case mapGet (activeConnections st) u of
        None \<Rightarrow> cleanupLoop now us st
      | Some c \<Rightarrow>
          if now - lastActivityOf c > inactiveThreshold
          then (let st1 = serverDisconnect (socket c) now st
                in cleanupLoop now us (st1\<lparr>activeConnections := mapDelete u (activeConnections st1)\<rparr>))
          else cleanupLoop now us st)"

definition cleanup :: "int \<Rightarrow> server \<Rightarrow> server" where
  "cleanup now st = cleanupLoop now (mapKeys (activeConnections st)) st"

text \<open>The times at which the interval timer started at \<open>t0\<close> fires.\<close>

definition cleanupTime :: "int \<Rightarrow> nat \<Rightarrow> int" where
  "cleanupTime t0 k = t0 + (int k + 1) * cleanupInterval"

text \<open>The exported helpers.\<close>

definition sendToUser :: "string \<Rightarrow> string \<Rightarrow> obj \<Rightarrow> int \<Rightarrow> server \<Rightarrow> bool \<times> server" where
  "sendToUser u ev data now st =
    (case mapGet (activeConnections st) u of
       Some c \<Rightarrow> (True, emit (socket c) ev (mapSet ''timestamp'' (JDate now) data) st)
     | None \<Rightarrow> (False, st))"

definition sendToAllUsers :: "string \<Rightarrow> obj \<Rightarrow> int \<Rightarrow> server \<Rightarrow> server" where
  "sendToAllUsers ev data now st =
    fold (\<lambda>(u, c). emit (socket c) ev (mapSet ''timestamp'' (JDate now) data))
         (activeConnections st) st"

definition getActiveUsers :: "server \<Rightarrow> string list" where
  "getActiveUsers st = mapKeys (activeConnections st)"

definition getUserConnection :: "server \<Rightarrow> string \<Rightarrow> connection option" where
  "getUserConnection st u = mapGet (activeConnections st) u"

text \<open>
  The states the process can be in: sockets connect under an id no connected socket has,
  connected sockets send frames and disconnect, the timer fires, and request handlers call
  the helpers.
\<close>

inductive reachable :: "server \<Rightarrow> bool" where
  init: "reachable initServer"
| connect: "reachable st \<Longrightarrow> sid s \<notin> sid ` set (sockets st) \<Longrightarrow> reachable (onConnection s now st)"
| message: "reachable st \<Longrightarrow> s \<in> set (sockets st) \<Longrightarrow> reachable (onMessage s m now st)"
| disconnect: "reachable st \<Longrightarrow> s \<in> set (sockets st) \<Longrightarrow> reachable (onDisconnect s reason now st)"
| tick: "reachable st \<Longrightarrow> reachable (cleanup now st)"
| send: "reachable st \<Longrightarrow> reachable (snd (sendToUser u ev data now st))"
| sendAll: "reachable st \<Longrightarrow> reachable (sendToAllUsers ev data now st)"

text \<open>The frames delivered between two states, and how many connections a user has open.\<close>

definition delivered :: "server \<Rightarrow> server \<Rightarrow> frame list" where
  "delivered st st' = drop (length (outbox st)) (outbox st')"

definition liveConnections :: "server \<Rightarrow> string \<Rightarrow> nat" where
  "liveConnections st u = length (roomMembers st u)"


section \<open>The goal routes (routes/goals.js)\<close>

text \<open>
  Each route is given the authenticated user's id (\<open>req.user._id.toString()\<close>), the time, the
  server state and the goal that \<open>checkOwnership\<close> loaded into \<open>req.resource\<close>; it returns the
  response, the goal as stored afterwards and the new server state. Persistence is taken to
  succeed.
\<close>

datatype response = Success nat string | Failure nat string

fun statusName :: "goal_status \<Rightarrow> string" where
  "statusName Active = ''active''"
| "statusName Paused = ''paused''"
| "statusName Completed = ''completed''"
| "statusName Cancelled = ''cancelled''"
| "statusName Failed = ''failed''"

definition optStr :: "string option \<Rightarrow> json" where
  "optStr s = (case s of None \<Rightarrow> JNull | Some t \<Rightarrow> JStr t)"

definition optDate :: "int option \<Rightarrow> json" where
  "optDate d = (case d of None \<Rightarrow> JUndefined | Some t \<Rightarrow> JDate t)"

definition milestoneJson :: "milestone \<Rightarrow> json" where
  "milestoneJson m =
    JObj [(''value'', JNum (mvalue m)), (''achievedAt'', JDate (achievedAt m)),
          (''note'', optStr (mnote m))]"

definition progressJson :: "progress \<Rightarrow> json" where
  "progressJson p =
    JObj [(''current'', (case current p of None \<Rightarrow> JUndefined | Some c \<Rightarrow> JNum c)),
          (''percentage'', JNum (percentage p)),
          (''lastUpdated'', JDate (lastUpdated p)),
          (''milestones'', JArr (map milestoneJson (milestones p)))]"

text \<open>
  \<open>goalSchemas.updateProgress\<close>: \<open>value\<close> is a required number, at least 0; \<open>note\<close> is an
  optional string of at most 200 characters, and Joi's \<open>string()\<close> refuses the empty string.
  The body is taken after parsing: \<open>value\<close> absent or a number, \<open>note\<close> absent or a string.
  All failing fields are reported (\<open>abortEarly: false\<close>).
\<close>

record progressBody =
  pvalue :: "real option"
  pnote :: "string option"

definition validateUpdateProgress :: "progressBody \<Rightarrow> string list + real \<times> string option" where
  "validateUpdateProgress b =
    (let noteErrors = (case pnote b of
                         None \<Rightarrow> []
                       | Some n \<Rightarrow> if n = [] \<or> length n > 200 then [''note''] else [])
     in case pvalue b of
          None \<Rightarrow> Inl (''value'' # noteErrors)
        | Some v \<Rightarrow> if v < 0 then Inl (''value'' # noteErrors)
                    else if noteErrors \<noteq> [] then Inl noteErrors
                    else Inr (v, pnote b))"

text \<open>\<open>PUT /:id/progress\<close>.\<close>

definition putProgress ::
  "string \<Rightarrow> progressBody \<Rightarrow> int \<Rightarrow> server \<Rightarrow> goal \<Rightarrow> response \<times> goal \<times> server" where
  "putProgress reqUser body now st g =
    (case validateUpdateProgress body of
       Inl errors \<Rightarrow> (Failure 400 ''Validation failed'', g, st)
     | Inr (v, note') \<Rightarrow>
         (let g' = updateProgress v note' now g;
              st1 = snd (sendToUser reqUser ''goal:progress-updated''
                      [(''id'', JStr (gid g')), (''title'', JStr (title g')),
                       (''progress'', progressJson (progress g')),
                       (''completed'', JBool (status g' = Completed))] now st);
              st2 = (if status g' = Completed
                     then snd (sendToUser reqUser ''goal:completed''
                            [(''id'', JStr (gid g')), (''title'', JStr (title g')),
                             (''completedAt'', optDate (completedAt g')),
                             (''celebration'', JBool True)] now st1)
                     else st1)
          in (Success 200 ''Goal progress updated successfully'', g', st2)))"

text \<open>
  \<open>PUT /:id/complete\<close>; \<open>note\<close> is \<open>req.body.note\<close>, absent or a string. The success message
  is given without the emoji that ends it in the source.
\<close>

definition putComplete ::
  "string \<Rightarrow> string option \<Rightarrow> int \<Rightarrow> server \<Rightarrow> goal \<Rightarrow> response \<times> goal \<times> server" where
  "putComplete reqUser note' now st g =
    (if status g = Completed then (Failure 400 ''Goal is already completed'', g, st)
     else
       (let g' = complete note' now g;
            st1 = snd (sendToUser reqUser ''goal:completed''
                    [(''id'', JStr (gid g')), (''title'', JStr (title g')),
                     (''completedAt'', optDate (completedAt g')),
                     (''celebration'', JBool True)] now st)
        in (Success 200 ''Goal completed successfully!'', g', st1)))"

text \<open>\<open>PUT /:id/pause\<close>.\<close>

definition putPause ::
  "string \<Rightarrow> string option \<Rightarrow> int \<Rightarrow> server \<Rightarrow> goal \<Rightarrow> response \<times> goal \<times> server" where
  "putPause reqUser reason now st g =
    (if status g \<noteq> Active then (Failure 400 ''Only active goals can be paused'', g, st)
     else
       (let g' = pause reason now g;
            st1 = snd (sendToUser reqUser ''goal:paused''
                    [(''id'', JStr (gid g')), (''title'', JStr (title g')),
                     (''reason'', (case reason of None \<Rightarrow> JUndefined | Some r \<Rightarrow> JStr r))] now st)
        in (Success 200 ''Goal paused successfully'', g', st1)))"

text \<open>\<open>PUT /:id/resume\<close>.\<close>

definition putResume :: "string \<Rightarrow> int \<Rightarrow> server \<Rightarrow> goal \<Rightarrow> response \<times> goal \<times> server" where
  "putResume reqUser now st g =
    (if status g \<noteq> Paused then (Failure 400 ''Only paused goals can be resumed'', g, st)
     else
       (let g' = resume now g;
            st1 = snd (sendToUser reqUser ''goal:resumed''
                    [(''id'', JStr (gid g')), (''title'', JStr (title g'))] now st)
        in (Success 200 ''Goal resumed successfully'', g', st1)))"

text \<open>
  \<open>goalSchemas.update\<close>, for the scalar fields of the body (\<open>reminders\<close> and \<open>tags\<close> are
  left out: they touch neither status nor progress). A status outside the five values cannot
  be written in the type \<open>goal_status\<close>; \<open>title\<close> is trimmed before its length is checked.
\<close>

record updateBody =
  utitle :: "string option"
  udescription :: "string option"
  upriority :: "string option"
  ustatus :: "goal_status option"
  uisPublic :: "bool option"
  unotes :: "string option"

definition isSpace :: "char \<Rightarrow> bool" where
  "isSpace c = (c \<in> set [CHR '' '', CHR 0x09, CHR 0x0A, CHR 0x0B, CHR 0x0C, CHR 0x0D])"

definition trim :: "string \<Rightarrow> string" where
  "trim s = rev (dropWhile isSpace (rev (dropWhile isSpace s)))"

definition strBetween :: "nat \<Rightarrow> nat \<Rightarrow> string option \<Rightarrow> bool" where
  "strBetween lo hi s = (case s of None \<Rightarrow> True | Some t \<Rightarrow> lo \<le> length t \<and> length t \<le> hi)"

definition validateUpdate :: "updateBody \<Rightarrow> string list + updateBody" where
  "validateUpdate b =
    (let b' = b\<lparr>utitle := map_option trim (utitle b)\<rparr>;
         errors =
           (if strBetween 1 100 (utitle b') then [] else [''title'']) @
           (if strBetween 1 500 (udescription b') then [] else [''description'']) @
           (case upriority b' of
              None \<Rightarrow> []
            | Some p \<Rightarrow> if p \<in> set [''low'', ''medium'', ''high'', ''critical''] then []
                        else [''priority'']) @
           (if strBetween 1 1000 (unotes b') then [] else [''notes''])
     in if errors = [] then Inr b' else Inl errors)"

text \<open>\<open>Goal.findByIdAndUpdate(id, body, {new: true})\<close>: the fields present are set; no save hook runs.\<close>

definition findByIdAndUpdate :: "updateBody \<Rightarrow> goal \<Rightarrow> goal" where
  "findByIdAndUpdate b g =
    (let g1 = (case utitle b of None \<Rightarrow> g | Some t \<Rightarrow> g\<lparr>title := t\<rparr>);
         g2 = (case udescription b of None \<Rightarrow> g1 | Some d \<Rightarrow> g1\<lparr>description := Some d\<rparr>);
         g3 = (case upriority b of None \<Rightarrow> g2 | Some p \<Rightarrow> g2\<lparr>priority := p\<rparr>);
         g4 = (case ustatus b of None \<Rightarrow> g3 | Some x \<Rightarrow> g3\<lparr>status := x\<rparr>);
         g5 = (case uisPublic b of None \<Rightarrow> g4 | Some x \<Rightarrow> g4\<lparr>isPublic := x\<rparr>)
     in (case unotes b of None \<Rightarrow> g5 | Some n \<Rightarrow> g5\<lparr>gnotes := Some n\<rparr>))"

text \<open>\<open>PUT /:id\<close>.\<close>

definition putUpdate ::
  "string \<Rightarrow> updateBody \<Rightarrow> int \<Rightarrow> server \<Rightarrow> goal \<Rightarrow> response \<times> goal \<times> server" where
  "putUpdate reqUser body now st g =
    (case validateUpdate body of
       Inl errors \<Rightarrow> (Failure 400 ''Validation failed'', g, st)
     | Inr b \<Rightarrow>
         (let g' = findByIdAndUpdate b g;
              st1 = snd (sendToUser reqUser ''goal:updated''
                      [(''id'', JStr (gid g')), (''title'', JStr (title g')),
                       (''status'', JStr (statusName (status g'))),
                       (''progress'', progressJson (progress g'))] now st)
          in (Success 200 ''Goal updated successfully'', g', st1)))"

text \<open>The operations the router offers on one stored goal, and a run of requests.\<close>

datatype goal_op =
    OpUpdate updateBody
  | OpProgress progressBody
  | OpComplete "string option"
  | OpPause "string option"
  | OpResume

fun applyOp :: "string \<Rightarrow> goal_op \<Rightarrow> int \<Rightarrow> server \<Rightarrow> goal \<Rightarrow> response \<times> goal \<times> server" where
  "applyOp reqUser (OpUpdate body) now st g = putUpdate reqUser body now st g"
| "applyOp reqUser (OpProgress body) now st g = putProgress reqUser body now st g"
| "applyOp reqUser (OpComplete note') now st g = putComplete reqUser note' now st g"
| "applyOp reqUser (OpPause reason) now st g = putPause reqUser reason now st g"
| "applyOp reqUser OpResume now st g = putResume reqUser now st g"

fun runOps :: "string \<Rightarrow> (goal_op \<times> int) list \<Rightarrow> server \<Rightarrow> goal \<Rightarrow> goal \<times> server" where
  "runOps reqUser [] st g = (g, st)"
| "runOps reqUser ((op, now) # rest) st g =
     (case applyOp reqUser op now st g of (r, g', st') \<Rightarrow> runOps reqUser rest st' g')"

text \<open>A request that writes the status field directly.\<close>

fun setsStatus :: "goal_op \<Rightarrow> bool" where
  "setsStatus (OpUpdate body) = (ustatus body \<noteq> None)"
| "setsStatus _ = False"


text \<open>
  What holds of the registry in every reachable state: one entry per key, connected sockets
  with distinct ids, and each entry filed under the user of a connected socket that it holds.
\<close>

definition entryOk :: "sock list \<Rightarrow> string \<Rightarrow> connection \<Rightarrow> bool" where
  "entryOk socks u c \<longleftrightarrow>
     socket c \<in> set socks \<and> userId (socket c) = u \<and> socketId c = sid (socket c)"

definition registryOk :: "server \<Rightarrow> bool" where
  "registryOk st \<longleftrightarrow>
     distinct (mapKeys (activeConnections st)) \<and>
     distinct (map sid (sockets st)) \<and>
     (\<forall>(u, c) \<in> set (activeConnections st). entryOk (sockets st) u c)"


section \<open>Concrete inputs\<close>

definition weightGoal :: goal where
  "weightGoal =
    \<lparr>gid = ''g1'', user = ''u1'', title = ''Reach 65'', description = None, gtype = Target,
     targetValue = Some 65, priority = ''medium'', status = Active,
     progress = \<lparr>current = Some 0, percentage = 0, lastUpdated = 0, milestones = []\<rparr>,
     greminders = None, tags = [], isPublic = False, completedAt = None, gnotes = None\<rparr>"

definition fortyGoal :: goal where
  "fortyGoal = weightGoal\<lparr>title := ''Reach 40'', targetValue := Some 40\<rparr>"

definition phone :: sock where
  "phone = \<lparr>sid = ''s1'', userId = ''u1''\<rparr>"

definition laptop :: sock where
  "laptop = \<lparr>sid = ''s2'', userId = ''u1''\<rparr>"

definition tablet :: sock where
  "tablet = \<lparr>sid = ''s3'', userId = ''u2''\<rparr>"

text \<open>User \<open>u1\<close> connects a phone at time 1 and a laptop at time 2; user \<open>u2\<close> a tablet at time 3.\<close>

definition twoDevices :: server where
  "twoDevices = onConnection laptop 2 (onConnection phone 1 initServer)"

definition threeDevices :: server where
  "threeDevices = onConnection tablet 3 twoDevices"

text \<open>The phone of \<open>u1\<close> disconnects at time 4; the laptop stays connected.\<close>

definition laptopOnly :: server where
  "laptopOnly = onDisconnect phone ''transport close'' 4 twoDevices"

text \<open>The tablet reports its presence one second before the 31st minute after time 2.\<close>

definition afterPresence :: server where
  "afterPresence =
     onMessage tablet (PresenceUpdate [(''status'', JStr ''away'')]) (2 + 31 * 60 * 1000 - 1000)
       threeDevices"

definition doneGoal :: goal where
  "doneGoal = weightGoal\<lparr>status := Completed, completedAt := Some 5,
                progress := \<lparr>current = Some 65, percentage = 100, lastUpdated = 5, milestones = []\<rparr>\<rparr>"

definition reopenBody :: updateBody where
  "reopenBody = \<lparr>utitle = None, udescription = None, upriority = None, ustatus = Some Active,
                 uisPublic = None, unotes = None\<rparr>"


section \<open>Double arithmetic\<close>

lemma bitLength_bounds: "0 < n \<Longrightarrow> 2 ^ (bitLength n - 1) \<le> n \<and> n < 2 ^ bitLength n"
proof (induction n rule: bitLength.induct)
  case (1 n)
  show ?case
  proof (cases "n div 2 = 0")
    case True
    with "1.prems" have "n = 1" by (simp add: div_eq_0_iff) 
    then show ?thesis by (simp add: bitLength.simps)
  next
    case False
    then have pos: "0 < n div 2" by simp
    have n0: "n \<noteq> 0" using "1.prems" by simp
    from "1.IH" [OF n0 pos]
    have ih: "2 ^ (bitLength (n div 2) - 1) \<le> n div 2" "n div 2 < 2 ^ bitLength (n div 2)"
      by simp_all
    have bl: "bitLength n = Suc (bitLength (n div 2))" using n0 by (subst bitLength.simps) simp
    have bpos: "0 < bitLength (n div 2)" using pos by (subst bitLength.simps) simp
    have "(2::nat) ^ bitLength (n div 2) = 2 * 2 ^ (bitLength (n div 2) - 1)"
      using bpos by (cases "bitLength (n div 2)") simp_all
    then have lo: "2 ^ bitLength (n div 2) \<le> n" using ih(1) by linarith
    have hi: "n < 2 * 2 ^ bitLength (n div 2)" using ih(2) by linarith
    show ?thesis using lo hi by (simp add: bl)
  qed
qed

lemma bitLength_pos: "0 < n \<Longrightarrow> 0 < bitLength n"
  by (subst bitLength.simps) simp

lemma bitLength_real_upper: "0 < n \<Longrightarrow> real n + 1 \<le> 2 ^ bitLength n"
proof -
  assume "0 < n"
  then have "n < 2 ^ bitLength n" using bitLength_bounds by blast
  then have "Suc n \<le> 2 ^ bitLength n" by simp
  then have "real (Suc n) \<le> real (2 ^ bitLength n)" by (rule of_nat_mono)
  then show ?thesis by simp
qed

lemma bitLength_real_lower: "0 < n \<Longrightarrow> 2 ^ (bitLength n - 1) \<le> real n"
proof -
  assume "0 < n"
  then have "2 ^ (bitLength n - 1) \<le> n" using bitLength_bounds by blast
  then have "real (2 ^ (bitLength n - 1)) \<le> real n" by (rule of_nat_mono)
  then show ?thesis by simp
qed

lemma expo_bounds:
  assumes "0 < x"
  shows "2 powi (expo x) \<le> x" and "x < 2 powi (expo x + 1)"
proof -
  show "2 powi (expo x) \<le> x"
  proof (cases "1 \<le> x")
    case True
    let ?n = "nat \<lfloor>x\<rfloor>"
    have n: "0 < ?n" using True by simp
    have e: "expo x = int (bitLength ?n - 1)"
      using True bitLength_pos [OF n] by (simp add: expo_def of_nat_diff)
    have "(2::real) ^ (bitLength ?n - 1) \<le> real ?n" using n by (rule bitLength_real_lower)
    also have "real ?n \<le> x" using True by simp
    finally show ?thesis by (simp add: e)
  next
    case False
    let ?n = "nat (\<lceil>1 / x\<rceil> - 1)"
    have inv: "1 < 1 / x" using assms False by simp
    then have c: "2 \<le> \<lceil>1 / x\<rceil>" by linarith
    then have n: "0 < ?n" by simp
    have e: "expo x = - int (bitLength ?n)" using False by (simp add: expo_def)
    have "0 \<le> \<lceil>1 / x\<rceil> - 1" using c by linarith
    then have "real ?n = of_int (\<lceil>1 / x\<rceil> - 1)" by (simp only: of_nat_nat)
    then have rn: "real ?n = of_int \<lceil>1 / x\<rceil> - 1" by (simp only: of_int_diff of_int_1)
    have b: "1 / x \<le> real ?n + 1" unfolding rn using ceiling_correct [of "1 / x"] by simp
    have "real ?n + 1 \<le> 2 ^ bitLength ?n" using n by (rule bitLength_real_upper)
    with b have "1 / x \<le> 2 ^ bitLength ?n" by linarith
    then have "1 / 2 ^ bitLength ?n \<le> x"
      using assms by (simp add: field_simps)
    then show ?thesis by (simp add: e power_int_minus_divide)
  qed
  show "x < 2 powi (expo x + 1)"
  proof (cases "1 \<le> x")
    case True
    let ?n = "nat \<lfloor>x\<rfloor>"
    have n: "0 < ?n" using True by simp
    have e: "expo x + 1 = int (bitLength ?n)"
      using True by (simp add: expo_def)
    have "real ?n + 1 \<le> 2 ^ bitLength ?n" using n by (rule bitLength_real_upper)
    moreover have "real ?n = of_int \<lfloor>x\<rfloor>" using True by simp
    then have "x < real ?n + 1" by linarith
    ultimately show ?thesis by (simp add: e)
  next
    case False
    let ?n = "nat (\<lceil>1 / x\<rceil> - 1)"
    have inv: "1 < 1 / x" using assms False by simp
    then have c: "2 \<le> \<lceil>1 / x\<rceil>" by linarith
    then have n: "0 < ?n" by simp
    have e: "expo x + 1 = - int (bitLength ?n - 1)"
      using False bitLength_pos [OF n] by (simp add: expo_def of_nat_diff)
    have "(2::real) ^ (bitLength ?n - 1) \<le> real ?n" using n by (rule bitLength_real_lower)
    moreover have "0 \<le> \<lceil>1 / x\<rceil> - 1" using c by linarith
    then have "real ?n = of_int (\<lceil>1 / x\<rceil> - 1)" by (simp only: of_nat_nat)
    then have "real ?n = of_int \<lceil>1 / x\<rceil> - 1" by (simp only: of_int_diff of_int_1)
    then have "real ?n < 1 / x" using ceiling_correct [of "1 / x"] by simp
    ultimately have "2 ^ (bitLength ?n - 1) < 1 / x" by linarith
    then have "x < 1 / 2 ^ (bitLength ?n - 1)"
      using assms by (simp add: field_simps)
    then show ?thesis by (simp add: e power_int_minus_divide)
  qed
qed


lemma roundEven_cases: "roundEven x = \<lfloor>x\<rfloor> \<or> roundEven x = \<lfloor>x\<rfloor> + 1"
  by (simp add: roundEven_def Let_def)

lemma roundEven_of_int [simp]: "roundEven (of_int n) = n"
  by (simp add: roundEven_def)

lemma roundEven_numeral [simp]: "roundEven (numeral n) = numeral n"
  using roundEven_of_int [of "numeral n"] by simp

lemma roundEven_mono: "x \<le> y \<Longrightarrow> roundEven x \<le> roundEven y"
proof -
  assume xy: "x \<le> y"
  have fxy: "\<lfloor>x\<rfloor> \<le> \<lfloor>y\<rfloor>" using xy by (rule floor_mono)
  show ?thesis
  proof (cases "\<lfloor>x\<rfloor> = \<lfloor>y\<rfloor>")
    case True
    then have "x - of_int \<lfloor>x\<rfloor> \<le> y - of_int \<lfloor>y\<rfloor>" using xy by simp
    then show ?thesis using True by (auto simp: roundEven_def Let_def)
  next
    case False
    then have "\<lfloor>x\<rfloor> + 1 \<le> \<lfloor>y\<rfloor>" using fxy by linarith
    moreover have "roundEven x \<le> \<lfloor>x\<rfloor> + 1" using roundEven_cases [of x] by linarith
    moreover have "\<lfloor>y\<rfloor> \<le> roundEven y" using roundEven_cases [of y] by linarith
    ultimately show ?thesis by linarith
  qed
qed

lemma roundEven_nonneg: "0 \<le> x \<Longrightarrow> 0 \<le> roundEven x"
  using roundEven_mono [of 0 x] roundEven_of_int [of 0] by simp

lemma expo_mono:
  assumes "0 < x" and "x \<le> y"
  shows "expo x \<le> expo y"
proof (rule ccontr)
  assume "\<not> expo x \<le> expo y"
  then have "expo y + 1 \<le> expo x" by simp
  then have "(2::real) powi (expo y + 1) \<le> 2 powi (expo x)"
    by (rule power_int_increasing) simp
  moreover have "y < 2 powi (expo y + 1)" using assms by (intro expo_bounds) simp
  moreover have "2 powi (expo x) \<le> x" using assms(1) by (rule expo_bounds)
  ultimately show False using assms(2) by linarith
qed

lemma ulp_pos [simp]: "0 < ulp x"
  by (simp add: ulp_def)

lemma ulp_neq_0 [simp]: "ulp x \<noteq> 0"
  by (simp add: ulp_def)

lemma ulp_nonneg [simp]: "0 \<le> ulp x"
  by (simp add: ulp_def)

lemma fl_nonneg: "0 \<le> x \<Longrightarrow> 0 \<le> fl x"
proof (cases "x = 0")
  case True
  then show ?thesis by (simp add: fl_def)
next
  case False
  assume "0 \<le> x"
  with False have x: "0 < x" by simp
  then have "0 \<le> x / ulp x" by simp
  then have "0 \<le> roundEven (x / ulp x)" by (rule roundEven_nonneg)
  then have "0 \<le> real_of_int (roundEven (x / ulp x)) * ulp x" by simp
  then show ?thesis using x by (simp add: fl_def)
qed

lemma fl_pos_eq: "0 < x \<Longrightarrow> fl x = of_int (roundEven (x / ulp x)) * ulp x"
  by (simp add: fl_def)

lemma fl_mono:
  assumes "0 \<le> x" and "x \<le> y"
  shows "fl x \<le> fl y"
proof (cases "x = 0")
  case True
  then show ?thesis using assms fl_nonneg [of y] by (simp add: fl_def)
next
  case False
  then have x: "0 < x" and y: "0 < y" using assms by simp_all
  define ex where "ex = max (expo x) (- 1022)"
  define ey where "ey = max (expo y) (- 1022)"
  have exy: "ex \<le> ey" unfolding ex_def ey_def using expo_mono [OF x assms(2)] by linarith
  have ux: "ulp x = 2 powi (ex - 52)" and uy: "ulp y = 2 powi (ey - 52)"
    by (simp_all add: ulp_def ex_def ey_def)
  show ?thesis
  proof (cases "ex = ey")
    case True
    then have u: "ulp x = ulp y" by (simp add: ux uy)
    have "x / ulp y \<le> y / ulp y" using assms(2) by (rule divide_right_mono) simp
    then have "roundEven (x / ulp y) \<le> roundEven (y / ulp y)" by (rule roundEven_mono)
    then have "real_of_int (roundEven (x / ulp y)) * ulp y \<le> real_of_int (roundEven (y / ulp y)) * ulp y"
      by (simp add: mult_right_mono)
    then show ?thesis by (simp add: fl_pos_eq [OF x] fl_pos_eq [OF y] u)
  next
    case False
    then have lt: "ex < ey" using exy by simp
    then have ey: "ey = expo y" unfolding ex_def ey_def by linarith
    have exlt: "expo x + 1 \<le> ey" using lt unfolding ex_def by linarith
    have xlt: "x < 2 powi ey"
    proof -
      have "x < 2 powi (expo x + 1)" using x by (rule expo_bounds)
      also have "(2::real) powi (expo x + 1) \<le> 2 powi ey"
        using exlt by (rule power_int_increasing) simp
      finally show ?thesis .
    qed
    define k where "k = nat (ey - ex + 52)"
    have k: "ey - (ex - 52) = int k" unfolding k_def using lt by simp
    have quot: "(2::real) powi ey / ulp x = 2 ^ k"
    proof -
      have "(2::real) powi (ey - (ex - 52)) = 2 powi ey / 2 powi (ex - 52)"
        by (rule power_int_diff) simp
      then have "(2::real) powi ey / 2 powi (ex - 52) = 2 powi (int k)" by (simp only: k)
      then show ?thesis by (simp only: ux power_int_of_nat)
    qed
    have "x / ulp x \<le> 2 powi ey / ulp x" using xlt by (intro divide_right_mono) simp_all
    then have "x / ulp x \<le> of_int (2 ^ k)" by (simp add: quot)
    then have "roundEven (x / ulp x) \<le> roundEven (of_int (2 ^ k))" by (rule roundEven_mono)
    then have "roundEven (x / ulp x) \<le> 2 ^ k" by (simp only: roundEven_of_int)
    then have "real_of_int (roundEven (x / ulp x)) \<le> real_of_int (2 ^ k)" by (simp only: of_int_le_iff)
    then have "real_of_int (roundEven (x / ulp x)) \<le> 2 ^ k" by simp
    then have "real_of_int (roundEven (x / ulp x)) * ulp x \<le> 2 ^ k * ulp x"
      by (rule mult_right_mono) simp
    also have "2 ^ k * ulp x = 2 powi ey"
    proof -
      have "ulp x \<noteq> 0" by simp
      then show ?thesis using quot by (simp add: field_simps)
    qed
    finally have left: "fl x \<le> 2 powi ey" by (simp only: fl_pos_eq [OF x])
    have "2 powi ey \<le> y" unfolding ey using y by (rule expo_bounds)
    then have "2 powi ey / ulp y \<le> y / ulp y" by (rule divide_right_mono) simp
    moreover have q52: "(2::real) powi ey / ulp y = 2 ^ 52"
    proof -
      have "(2::real) powi (ey - (ey - 52)) = 2 powi ey / 2 powi (ey - 52)"
        by (rule power_int_diff) simp
      then show ?thesis by (simp add: uy)
    qed
    ultimately have "of_int (2 ^ 52) \<le> y / ulp y" by simp
    then have "roundEven (of_int (2 ^ 52)) \<le> roundEven (y / ulp y)" by (rule roundEven_mono)
    then have "2 ^ 52 \<le> roundEven (y / ulp y)" by (simp only: roundEven_of_int)
    then have "real_of_int (2 ^ 52) \<le> real_of_int (roundEven (y / ulp y))"
      by (simp only: of_int_le_iff)
    then have "(2::real) ^ 52 \<le> real_of_int (roundEven (y / ulp y))" by simp
    then have a: "2 ^ 52 * ulp y \<le> real_of_int (roundEven (y / ulp y)) * ulp y"
      by (rule mult_right_mono) simp
    have b: "2 ^ 52 * ulp y = 2 powi ey"
    proof -
      have "ulp y \<noteq> 0" by simp
      then show ?thesis using q52 by (simp add: field_simps)
    qed
    from a have "2 powi ey \<le> real_of_int (roundEven (y / ulp y)) * ulp y" by (simp only: b)
    then have right: "2 powi ey \<le> fl y" by (simp only: fl_pos_eq [OF y])
    from left right show ?thesis by linarith
  qed
qed

lemma bitLength_1: "bitLength (Suc 0) = 1"
  by (simp add: bitLength.simps)

lemma fl_1: "fl 1 = 1"
  by (simp add: fl_def ulp_def expo_def bitLength_1)

lemma fl_half: "fl (1 / 2) = 1 / 2"
  by (simp add: fl_def ulp_def expo_def bitLength_1)

lemma bl100: "bitLength 100 = 7"
  by code_simp

lemma bl50: "bitLength 50 = 6"
  by code_simp

lemma fl_100: "fl 100 = 100"
  by (simp add: fl_def ulp_def expo_def bl100)

lemma fl_50: "fl 50 = 50"
  by (simp add: fl_def ulp_def expo_def bl50)

lemma fdiv_23_40: "fdiv 23 40 = 5179139571476070 / 2 ^ 53"
  by (simp add: fdiv_def fl_def ulp_def expo_def bitLength_1 roundEven_def)


lemma roundEven_error: "\<bar>real_of_int (roundEven y) - y\<bar> \<le> 1 / 2"
proof -
  have "real_of_int \<lfloor>y\<rfloor> \<le> y" "y < real_of_int \<lfloor>y\<rfloor> + 1" by linarith+
  then show ?thesis by (auto simp: roundEven_def Let_def)
qed

lemma fl_error:
  assumes "0 < x"
  shows "\<bar>fl x - x\<bar> \<le> ulp x / 2"
proof -
  have "\<bar>real_of_int (roundEven (x / ulp x)) - x / ulp x\<bar> * ulp x \<le> 1 / 2 * ulp x"
    using roundEven_error by (rule mult_right_mono) simp
  moreover have "\<bar>real_of_int (roundEven (x / ulp x)) - x / ulp x\<bar> * ulp x
                   = \<bar>real_of_int (roundEven (x / ulp x)) * ulp x - x\<bar>"
  proof -
    have "\<bar>real_of_int (roundEven (x / ulp x)) - x / ulp x\<bar> * ulp x
            = \<bar>(real_of_int (roundEven (x / ulp x)) - x / ulp x) * ulp x\<bar>"
      by (simp add: abs_mult)
    also have "(real_of_int (roundEven (x / ulp x)) - x / ulp x) * ulp x
                 = real_of_int (roundEven (x / ulp x)) * ulp x - x"
      by (simp add: left_diff_distrib)
    finally show ?thesis .
  qed
  ultimately show ?thesis by (simp add: fl_pos_eq [OF assms])
qed

lemma ulp_le:
  assumes "0 < x" and "x < 2 powi (k + 1)" and "- 1022 \<le> k"
  shows "ulp x \<le> 2 powi (k - 52)"
proof -
  have "expo x \<le> k"
  proof (rule ccontr)
    assume "\<not> expo x \<le> k"
    then have "k + 1 \<le> expo x" by simp
    then have "(2::real) powi (k + 1) \<le> 2 powi (expo x)" by (rule power_int_increasing) simp
    also have "\<dots> \<le> x" using assms(1) by (rule expo_bounds)
    finally show False using assms(2) by simp
  qed
  then have "max (expo x) (- 1022) - 52 \<le> k - 52" using assms(3) by linarith
  then show ?thesis unfolding ulp_def by (rule power_int_increasing) simp
qed

lemma fl_0 [simp]: "fl 0 = 0"
  by (simp add: fl_def)

lemma abs_triangle_100: "\<bar>a - c * 100\<bar> \<le> \<bar>a - b * 100\<bar> + 100 * \<bar>b - c\<bar>" for a b c :: real
  by (simp add: abs_if) 

lemma percent_error:
  assumes "0 < t" and "0 \<le> v" and "v / t < 1"
  shows "\<bar>fmul (fdiv v t) 100 - v / t * 100\<bar> < 1"
proof (cases "v = 0")
  case True
  then show ?thesis by (simp add: fmul_def fdiv_def)
next
  case False
  then have q: "0 < v / t" using assms by simp
  have "v / t < 2 powi (- 1 + 1)" using assms(3) by simp
  with q have "ulp (v / t) \<le> 2 powi (- 1 - 52)" by (rule ulp_le) simp
  then have u1: "ulp (v / t) \<le> 1 / 2 ^ 53" by (simp add: power_int_minus_divide)
  have e1: "\<bar>fdiv v t - v / t\<bar> \<le> 1 / 2 ^ 54"
    using fl_error [OF q] u1 by (simp add: fdiv_def)
  have q1: "0 \<le> fdiv v t" unfolding fdiv_def using q by (intro fl_nonneg) simp
  have "fl (v / t) \<le> fl 1" using assms(3) q by (intro fl_mono) simp_all
  then have q1le: "fdiv v t \<le> 1" by (simp add: fdiv_def fl_1)
  have e2: "\<bar>fmul (fdiv v t) 100 - fdiv v t * 100\<bar> \<le> 1 / 2 ^ 47"
  proof (cases "fdiv v t = 0")
    case True
    then show ?thesis by (simp add: fmul_def)
  next
    case False
    then have p: "0 < fdiv v t * 100" using q1 by simp
    have "fdiv v t * 100 < 2 powi (6 + 1)" using q1le by simp
    with p have "ulp (fdiv v t * 100) \<le> 2 powi (6 - 52)" by (rule ulp_le) simp
    then have "ulp (fdiv v t * 100) \<le> 1 / 2 ^ 46" by (simp add: power_int_minus_divide)
    then show ?thesis using fl_error [OF p] by (simp add: fmul_def)
  qed
  have "\<bar>fmul (fdiv v t) 100 - v / t * 100\<bar>
          \<le> \<bar>fmul (fdiv v t) 100 - fdiv v t * 100\<bar> + 100 * \<bar>fdiv v t - v / t\<bar>"
    by (rule abs_triangle_100)
  also have "\<dots> \<le> 1 / 2 ^ 47 + 100 * (1 / 2 ^ 54)"
    by (rule add_mono [OF e2 mult_left_mono [OF e1]]) simp
  also have "\<dots> < 1" by simp
  finally show ?thesis .
qed


lemma bl57: "bitLength 57 = 6"
  by code_simp

lemma fmul_23_40: "fmul (fdiv 23 40) 100 = 8092405580431359 / 2 ^ 47"
  by (simp add: fdiv_23_40 fmul_def fl_def ulp_def expo_def bl57 roundEven_def)

lemma round_23_40: "Math_round (fmul (fdiv 23 40) 100) = 57"
  by (simp add: fmul_23_40 Math_round_def)

lemma exact_23_40: "of_int (round ((23::real) / 40 * 100)) = (58::real)"
  by (simp add: round_def)

lemma Math_round_close: "\<bar>a - b\<bar> < 1 \<Longrightarrow> \<bar>Math_round a - Math_round b\<bar> \<le> 1"
proof -
  assume d: "\<bar>a - b\<bar> < 1"
  have s: "\<lfloor>x + 1\<rfloor> = \<lfloor>x\<rfloor> + 1" for x :: real
    using floor_add_int [of x 1] by simp
  have "\<lfloor>a + 1 / 2\<rfloor> \<le> \<lfloor>(b + 1 / 2) + 1\<rfloor>" by (rule floor_mono) (use d in linarith)
  then have u: "\<lfloor>a + 1 / 2\<rfloor> \<le> \<lfloor>b + 1 / 2\<rfloor> + 1" by (simp only: s)
  have "\<lfloor>b + 1 / 2\<rfloor> \<le> \<lfloor>(a + 1 / 2) + 1\<rfloor>" by (rule floor_mono) (use d in linarith)
  then have l: "\<lfloor>b + 1 / 2\<rfloor> \<le> \<lfloor>a + 1 / 2\<rfloor> + 1" by (simp only: s)
  from u l have "\<bar>\<lfloor>a + 1 / 2\<rfloor> - \<lfloor>b + 1 / 2\<rfloor>\<bar> \<le> 1" by linarith
  then have "\<bar>real_of_int (\<lfloor>a + 1 / 2\<rfloor> - \<lfloor>b + 1 / 2\<rfloor>)\<bar> \<le> 1" by linarith
  then show ?thesis by (simp add: Math_round_def)
qed


section \<open>Progress percentage\<close>

lemma Math_round_mono: "x \<le> y \<Longrightarrow> Math_round x \<le> Math_round y"
  unfolding Math_round_def by (simp add: floor_mono)

lemma Math_round_round: "Math_round x = of_int (round x)"
  by (simp add: Math_round_def round_def)

lemma Math_round_nonneg: "0 \<le> x \<Longrightarrow> 0 \<le> Math_round x"
  unfolding Math_round_def by simp

lemma Math_round_ge_100: "100 \<le> x \<Longrightarrow> 100 \<le> Math_round x"
proof -
  assume "100 \<le> x"
  then have "(100::int) \<le> \<lfloor>x + 1 / 2\<rfloor>" by (simp add: le_floor_iff)
  then show ?thesis unfolding Math_round_def by linarith
qed

lemma percentage_updateProgress:
  "gtype g = Target \<Longrightarrow> targetValue g = Some t \<Longrightarrow> t \<noteq> 0 \<Longrightarrow>
   percentage (progress (updateProgress v n now g)) = min (Math_round (fmul (fdiv v t) 100)) 100"
  by (simp add: updateProgress_def preSave_def Let_def)

lemma product_nonneg:
  assumes "0 < t" and "0 \<le> v"
  shows "0 \<le> fmul (fdiv v t) 100"
proof -
  have "0 \<le> v / t" using assms by simp
  then have "0 \<le> fdiv v t" unfolding fdiv_def by (rule fl_nonneg)
  then have "0 \<le> fdiv v t * 100" by simp
  then show ?thesis unfolding fmul_def by (rule fl_nonneg)
qed

lemma product_mono:
  assumes "0 < t" and "0 \<le> v" and "v \<le> w"
  shows "fmul (fdiv v t) 100 \<le> fmul (fdiv w t) 100"
proof -
  have q: "0 \<le> v / t" using assms by simp
  have "v / t \<le> w / t" using assms by (simp add: divide_right_mono)
  with q have d: "fdiv v t \<le> fdiv w t" unfolding fdiv_def by (rule fl_mono)
  have "0 \<le> fdiv v t" unfolding fdiv_def using q by (rule fl_nonneg)
  then have "0 \<le> fdiv v t * 100" by simp
  moreover have "fdiv v t * 100 \<le> fdiv w t * 100" using d by simp
  ultimately show ?thesis unfolding fmul_def by (rule fl_mono)
qed

lemma product_ge_100:
  assumes "0 < t" and "t \<le> v"
  shows "100 \<le> fmul (fdiv v t) 100"
proof -
  have "1 \<le> v / t" using assms by simp
  then have "fl 1 \<le> fl (v / t)" by (intro fl_mono) simp_all
  then have one: "1 \<le> fdiv v t" by (simp add: fdiv_def fl_1)
  then have "1 * 100 \<le> fdiv v t * 100" by (rule mult_right_mono) simp
  then have "100 \<le> fdiv v t * 100" by (simp only: mult_1)
  then have "fl 100 \<le> fl (fdiv v t * 100)" by (intro fl_mono) simp_all
  then show ?thesis by (simp add: fmul_def fl_100)
qed

lemma code_percentage_is_double_spec:
  assumes "0 < t" and "0 \<le> v"
  shows "min (Math_round (fmul (fdiv v t) 100)) 100 = double_percentage t v"
proof -
  have "0 \<le> Math_round (fmul (fdiv v t) 100)"
    using product_nonneg [OF assms] by (rule Math_round_nonneg)
  then show ?thesis by (simp add: double_percentage_def clamp_def Math_round_round)
qed

lemma code_percentage_near_exact:
  assumes "0 < t" and "0 \<le> v"
  shows "\<bar>min (Math_round (fmul (fdiv v t) 100)) 100 - spec_percentage t v\<bar> \<le> 1"
proof (cases "t \<le> v")
  case True
  have "100 \<le> Math_round (fmul (fdiv v t) 100)"
    using product_ge_100 [OF assms(1) True] by (rule Math_round_ge_100)
  then have code: "min (Math_round (fmul (fdiv v t) 100)) 100 = 100" by simp
  have "1 \<le> v / t" using assms(1) True by simp
  then have "1 * 100 \<le> v / t * 100" by (rule mult_right_mono) simp
  then have "100 \<le> v / t * 100" by (simp only: mult_1)
  then have "100 \<le> Math_round (v / t * 100)" by (rule Math_round_ge_100)
  then have "spec_percentage t v = 100"
    by (simp add: spec_percentage_def clamp_def Math_round_round)
  with code show ?thesis by simp
next
  case False
  then have "v / t < 1" using assms(1) by simp
  with assms have "\<bar>fmul (fdiv v t) 100 - v / t * 100\<bar> < 1" by (rule percent_error)
  then have close: "\<bar>Math_round (fmul (fdiv v t) 100) - Math_round (v / t * 100)\<bar> \<le> 1"
    by (rule Math_round_close)
  have "0 \<le> v / t * 100" using assms by simp
  then have "0 \<le> Math_round (v / t * 100)" by (rule Math_round_nonneg)
  then have spec: "spec_percentage t v = min (Math_round (v / t * 100)) 100"
    by (simp add: spec_percentage_def clamp_def Math_round_round)
  show ?thesis unfolding spec using close by linarith
qed

text \<open>
  C6, amended. For a goal of type target with \<open>target.value = t > 0\<close> and a progress value
  \<open>v \<ge> 0\<close>, the percentage stored by \<open>updateProgress(v)\<close> is
  \<open>clamp(round(v / t * 100), 0, 100)\<close> with the quotient and the product computed in double
  precision. It lies between 0 and 100, differs from the exactly computed value by at most
  1, and does not decrease when \<open>v\<close> grows; with \<open>t = 65\<close>, \<open>v = 32.5\<close> gives 50 and \<open>v = 100\<close>
  gives 100.
\<close>

theorem percentage_in_double_arithmetic:
  assumes "gtype g = Target" and "targetValue g = Some t" and "0 < t" and "0 \<le> v"
  shows "percentage (progress (updateProgress v n now g)) = double_percentage t v
       \<and> 0 \<le> percentage (progress (updateProgress v n now g))
       \<and> percentage (progress (updateProgress v n now g)) \<le> 100
       \<and> \<bar>percentage (progress (updateProgress v n now g)) - spec_percentage t v\<bar> \<le> 1
       \<and> (\<forall>w n' now'. v \<le> w \<longrightarrow>
            percentage (progress (updateProgress v n now g))
              \<le> percentage (progress (updateProgress w n' now' g)))
       \<and> (t = 65 \<and> v = 32.5 \<longrightarrow> percentage (progress (updateProgress v n now g)) = 50)
       \<and> (t = 65 \<and> v = 100 \<longrightarrow> percentage (progress (updateProgress v n now g)) = 100)"
proof -
  have t0: "t \<noteq> 0" using assms(3) by simp
  have pct: "percentage (progress (updateProgress x m k g))
               = min (Math_round (fmul (fdiv x t) 100)) 100" for x m k
    using assms(1,2) t0 by (rule percentage_updateProgress)
  have spec: "percentage (progress (updateProgress v n now g)) = double_percentage t v"
    using code_percentage_is_double_spec [OF assms(3,4)] by (simp only: pct)
  have lo: "0 \<le> percentage (progress (updateProgress v n now g))"
    using Math_round_nonneg [OF product_nonneg [OF assms(3,4)]] by (simp add: pct)
  have hi: "percentage (progress (updateProgress v n now g)) \<le> 100"
    by (simp add: pct)
  have near: "\<bar>percentage (progress (updateProgress v n now g)) - spec_percentage t v\<bar> \<le> 1"
    using code_percentage_near_exact [OF assms(3,4)] by (simp only: pct)
  have mono: "percentage (progress (updateProgress v n now g))
                \<le> percentage (progress (updateProgress w n' now' g))"
    if "v \<le> w" for w n' now'
  proof -
    have "fmul (fdiv v t) 100 \<le> fmul (fdiv w t) 100"
      using assms(3,4) that by (rule product_mono)
    then have "Math_round (fmul (fdiv v t) 100) \<le> Math_round (fmul (fdiv w t) 100)"
      by (rule Math_round_mono)
    then show ?thesis by (simp add: pct min_le_iff_disj)
  qed
  have half: "percentage (progress (updateProgress v n now g)) = 50" if "t = 65 \<and> v = 32.5"
  proof -
    have d: "fdiv 32.5 65 = 1 / 2" by (simp add: fdiv_def fl_half)
    have "fmul (1 / 2) 100 = 50" by (simp add: fmul_def fl_50)
    then have "fmul (fdiv 32.5 65) 100 = 50" by (simp only: d)
    then have "min (Math_round (fmul (fdiv 32.5 65) 100)) 100 = 50"
      by (simp add: Math_round_def)
    with that show ?thesis by (simp only: pct)
  qed
  have full: "percentage (progress (updateProgress v n now g)) = 100" if "t = 65 \<and> v = 100"
  proof -
    have "t \<le> v" using that by simp
    then have "100 \<le> Math_round (fmul (fdiv v t) 100)"
      using product_ge_100 [OF assms(3)] Math_round_ge_100 by blast
    then show ?thesis by (simp add: pct)
  qed
  from spec lo hi near mono half full show ?thesis by blast
qed

theorem percentage_in_double_arithmetic_witness:
  "percentage (progress (updateProgress 32.5 None 7 weightGoal)) = 50
   \<and> percentage (progress (updateProgress 100 None 7 weightGoal)) = 100
   \<and> percentage (progress (updateProgress 32.5 None 7 weightGoal))
       \<le> percentage (progress (updateProgress 100 None 8 weightGoal))
   \<and> double_percentage 65 32.5 = 50"
proof -
  have g: "gtype weightGoal = Target" "targetValue weightGoal = Some 65"
    by (simp_all add: weightGoal_def)
  have a: "(0::real) < 65" "(0::real) \<le> 32.5" "(0::real) \<le> 100" "(32.5::real) \<le> 100"
    by simp_all
  note h = percentage_in_double_arithmetic [OF g a(1) a(2), of None 7]
  note f = percentage_in_double_arithmetic [OF g a(1) a(3), of None 7]
  from h have "percentage (progress (updateProgress 32.5 None 7 weightGoal)) = 50" by simp
  moreover from f have "percentage (progress (updateProgress 100 None 7 weightGoal)) = 100" by simp
  moreover from h a(4)
  have "percentage (progress (updateProgress 32.5 None 7 weightGoal))
          \<le> percentage (progress (updateProgress 100 None 8 weightGoal))" by blast
  moreover from h have "double_percentage 65 32.5 = 50" by simp
  ultimately show ?thesis by blast
qed

text \<open>
  The claim as stated fails: with \<open>target.value = 40\<close> and \<open>v = 23\<close> the quotient is rounded
  below 0.575 and the product below 57.5, so 57 is stored, where the exactly computed
  \<open>clamp(round(v / 40 * 100), 0, 100)\<close> is 58.
\<close>

theorem percentage_exact_formula_counterexample:
  "percentage (progress (updateProgress 23 None 7 fortyGoal)) = 57
   \<and> spec_percentage 40 23 = 58
   \<and> percentage (progress (updateProgress 23 None 7 fortyGoal)) \<noteq> spec_percentage 40 23"
proof -
  have g: "gtype fortyGoal = Target" "targetValue fortyGoal = Some 40"
    by (simp_all add: fortyGoal_def weightGoal_def)
  have "percentage (progress (updateProgress 23 None 7 fortyGoal))
          = min (Math_round (fmul (fdiv 23 40) 100)) 100"
    using g by (rule percentage_updateProgress) simp
  then have code: "percentage (progress (updateProgress 23 None 7 fortyGoal)) = 57"
    by (simp add: round_23_40)
  have spec: "spec_percentage 40 23 = 58"
    by (simp add: spec_percentage_def clamp_def round_def)
  from code spec show ?thesis by simp
qed


section \<open>Facts about the map operations\<close>

lemma mapGet_map_of: "mapGet kvs k = map_of kvs k"
  by (induction kvs) auto

lemma mapGet_None_iff: "mapGet kvs k = None \<longleftrightarrow> k \<notin> set (mapKeys kvs)"
  by (simp add: mapGet_map_of mapKeys_def map_of_eq_None_iff)

lemma mapGet_Some_mem: "mapGet kvs k = Some v \<Longrightarrow> (k, v) \<in> set kvs"
  by (simp add: mapGet_map_of map_of_SomeD)

lemma mem_mapGet: "distinct (mapKeys kvs) \<Longrightarrow> (k, v) \<in> set kvs \<Longrightarrow> mapGet kvs k = Some v"
  by (simp add: mapGet_map_of mapKeys_def)

lemma mapGet_mapSet: "mapGet (mapSet k v kvs) k' = (if k' = k then Some v else mapGet kvs k')"
  by (induction kvs) auto

lemma mapKeys_mapSet:
  "mapKeys (mapSet k v kvs) = (if k \<in> set (mapKeys kvs) then mapKeys kvs else mapKeys kvs @ [k])"
  by (induction kvs) (force simp: mapKeys_def)+

lemma distinct_mapSet: "distinct (mapKeys kvs) \<Longrightarrow> distinct (mapKeys (mapSet k v kvs))"
  by (simp add: mapKeys_mapSet)

lemma set_mapSet_subset: "set (mapSet k v kvs) \<subseteq> insert (k, v) (set kvs)"
  by (induction kvs) (auto split: if_splits)

lemma set_mapDelete_subset: "set (mapDelete k kvs) \<subseteq> set kvs"
  by (induction kvs) (auto split: if_splits)

lemma mapKeys_mapDelete: "mapKeys (mapDelete k kvs) = remove1 k (mapKeys kvs)"
  by (induction kvs) (auto simp: mapKeys_def)

lemma distinct_mapDelete: "distinct (mapKeys kvs) \<Longrightarrow> distinct (mapKeys (mapDelete k kvs))"
  by (simp add: mapKeys_mapDelete)

lemma mapGet_mapDelete_other: "k' \<noteq> k \<Longrightarrow> mapGet (mapDelete k kvs) k' = mapGet kvs k'"
  by (induction kvs) auto

lemma mapGet_mapDelete_same: "distinct (mapKeys kvs) \<Longrightarrow> mapGet (mapDelete k kvs) k = None"
  by (simp add: mapGet_None_iff mapKeys_mapDelete)

lemma mapDelete_absent: "k \<notin> set (mapKeys kvs) \<Longrightarrow> mapDelete k kvs = kvs"
  by (induction kvs) (auto simp: mapKeys_def)


section \<open>The registry invariant\<close>

lemma emit_fields [simp]:
  "activeConnections (emit s ev d st) = activeConnections st"
  "sockets (emit s ev d st) = sockets st"
  by (simp_all add: emit_def)

lemma toRoomEmit_fields [simp]:
  "activeConnections (toRoomEmit s u ev d st) = activeConnections st"
  "sockets (toRoomEmit s u ev d st) = sockets st"
  by (simp_all add: toRoomEmit_def)

lemma sendToUser_fields [simp]:
  "activeConnections (snd (sendToUser u ev d now st)) = activeConnections st"
  "sockets (snd (sendToUser u ev d now st)) = sockets st"
  by (simp_all add: sendToUser_def split: option.splits)

lemma sendToAllUsers_fields_aux:
  "activeConnections (fold (\<lambda>(u, c). emit (socket c) ev d) xs st) = activeConnections st \<and>
   sockets (fold (\<lambda>(u, c). emit (socket c) ev d) xs st) = sockets st"
  by (induction xs arbitrary: st) (auto)

lemma sendToAllUsers_fields [simp]:
  "activeConnections (sendToAllUsers ev d now st) = activeConnections st"
  "sockets (sendToAllUsers ev d now st) = sockets st"
  by (simp_all add: sendToAllUsers_def sendToAllUsers_fields_aux)

lemma registryOk_same:
  "registryOk st \<Longrightarrow> activeConnections st' = activeConnections st \<Longrightarrow>
   sockets st' = sockets st \<Longrightarrow> registryOk st'"
  by (simp add: registryOk_def)

lemma registryOkI:
  assumes "distinct (mapKeys (activeConnections st))"
    and "distinct (map sid (sockets st))"
    and "\<And>u c. (u, c) \<in> set (activeConnections st) \<Longrightarrow> entryOk (sockets st) u c"
  shows "registryOk st"
  using assms unfolding registryOk_def by blast

lemma registryOk_keys: "registryOk st \<Longrightarrow> distinct (mapKeys (activeConnections st))"
  by (simp add: registryOk_def)

lemma registryOk_sids: "registryOk st \<Longrightarrow> distinct (map sid (sockets st))"
  by (simp add: registryOk_def)

lemma registryOk_entry:
  "registryOk st \<Longrightarrow> (u, c) \<in> set (activeConnections st) \<Longrightarrow> entryOk (sockets st) u c"
  unfolding registryOk_def by blast

lemma onConnection_fields:
  "activeConnections (onConnection s now st) =
     mapSet (userId s) \<lparr>socketId = sid s, socket = s, connectedAt = now,
                         lastActivity = None, cstatus = None\<rparr> (activeConnections st)"
  "sockets (onConnection s now st) = sockets st @ [s]"
  by (simp_all add: onConnection_def Let_def)

lemma onDisconnect_fields:
  "activeConnections (onDisconnect s r now st) = mapDelete (userId s) (activeConnections st)"
  "sockets (onDisconnect s r now st) = filter (\<lambda>x. sid x \<noteq> sid s) (sockets st)"
  by (simp_all add: onDisconnect_def Let_def)

lemma onMessage_sockets [simp]: "sockets (onMessage s m now st) = sockets st"
  by (cases m) (simp_all add: Let_def split: option.splits)

lemma onMessage_registry_other:
  "\<forall>data. m \<noteq> PresenceUpdate data \<Longrightarrow>
   activeConnections (onMessage s m now st) = activeConnections st"
  by (cases m) (simp_all add: Let_def)

lemma onMessage_registry_presence:
  "activeConnections (onMessage s (PresenceUpdate data) now st) =
     (case mapGet (activeConnections st) (userId s) of
        Some c \<Rightarrow> mapSet (userId s)
                   (c\<lparr>lastActivity := Some now,
                      cstatus := Some (if truthy (field data ''status'')
                                       then field data ''status'' else JStr ''active'')\<rparr>)
                   (activeConnections st)
      | None \<Rightarrow> activeConnections st)"
  by (simp add: Let_def split: option.splits)

lemma entryOk_mono: "entryOk socks u c \<Longrightarrow> set socks \<subseteq> set socks' \<Longrightarrow> entryOk socks' u c"
  unfolding entryOk_def by blast

lemma registryOk_onConnection:
  assumes "registryOk st" and "sid s \<notin> sid ` set (sockets st)"
  shows "registryOk (onConnection s now st)"
proof (rule registryOkI)
  let ?c = "\<lparr>socketId = sid s, socket = s, connectedAt = now, lastActivity = None, cstatus = None\<rparr>"
  show "distinct (mapKeys (activeConnections (onConnection s now st)))"
    using assms(1) by (simp add: onConnection_fields registryOk_keys distinct_mapSet)
  show "distinct (map sid (sockets (onConnection s now st)))"
    using assms by (simp add: onConnection_fields registryOk_sids)
  fix u c
  assume "(u, c) \<in> set (activeConnections (onConnection s now st))"
  then have "(u, c) \<in> insert (userId s, ?c) (set (activeConnections st))"
    using set_mapSet_subset [of "userId s" ?c "activeConnections st"]
    by (auto simp: onConnection_fields)
  then consider "u = userId s" "c = ?c" | "(u, c) \<in> set (activeConnections st)" by blast
  then show "entryOk (sockets (onConnection s now st)) u c"
  proof cases
    case 1
    then show ?thesis by (simp add: entryOk_def onConnection_fields)
  next
    case 2
    then have "entryOk (sockets st) u c" using assms(1) by (simp add: registryOk_entry)
    then show ?thesis by (rule entryOk_mono) (auto simp: onConnection_fields)
  qed
qed

lemma registryOk_touch:
  assumes "registryOk st" and "mapGet (activeConnections st) u = Some c"
  shows "registryOk (st\<lparr>activeConnections :=
            mapSet u (c\<lparr>lastActivity := la, cstatus := cs\<rparr>) (activeConnections st)\<rparr>)"
proof (rule registryOkI)
  let ?c = "c\<lparr>lastActivity := la, cstatus := cs\<rparr>"
  let ?st = "st\<lparr>activeConnections := mapSet u ?c (activeConnections st)\<rparr>"
  show "distinct (mapKeys (activeConnections ?st))"
    using assms(1) by (simp add: registryOk_keys distinct_mapSet)
  show "distinct (map sid (sockets ?st))"
    using assms(1) by (simp add: registryOk_sids)
  have old: "entryOk (sockets st) u c"
    using assms by (simp add: registryOk_entry mapGet_Some_mem)
  fix k x
  assume "(k, x) \<in> set (activeConnections ?st)"
  then have "(k, x) \<in> insert (u, ?c) (set (activeConnections st))"
    using set_mapSet_subset [of u ?c "activeConnections st"] by auto
  then consider "k = u" "x = ?c" | "(k, x) \<in> set (activeConnections st)" by blast
  then show "entryOk (sockets ?st) k x"
  proof cases
    case 1
    then show ?thesis using old by (simp add: entryOk_def)
  next
    case 2
    then show ?thesis using assms(1) by (simp add: registryOk_entry)
  qed
qed

lemma registryOk_onMessage:
  assumes "registryOk st"
  shows "registryOk (onMessage s m now st)"
proof (cases "\<exists>data. m = PresenceUpdate data")
  case False
  then have "activeConnections (onMessage s m now st) = activeConnections st"
    by (simp add: onMessage_registry_other)
  with assms show ?thesis by (rule registryOk_same) simp
next
  case True
  then obtain data where m: "m = PresenceUpdate data" ..
  show ?thesis
  proof (cases "mapGet (activeConnections st) (userId s)")
    case None
    then have "activeConnections (onMessage s m now st) = activeConnections st"
      using m by (simp add: onMessage_registry_presence)
    with assms show ?thesis by (rule registryOk_same) simp
  next
    case (Some c)
    let ?cs = "Some (if truthy (field data ''status'') then field data ''status'' else JStr ''active'')"
    let ?st = "st\<lparr>activeConnections :=
                  mapSet (userId s) (c\<lparr>lastActivity := Some now, cstatus := ?cs\<rparr>) (activeConnections st)\<rparr>"
    have ok: "registryOk ?st" using assms Some by (rule registryOk_touch)
    have "activeConnections (onMessage s m now st) = activeConnections ?st"
      using m Some by (simp add: onMessage_registry_presence)
    moreover have "sockets (onMessage s m now st) = sockets ?st" by simp
    ultimately show ?thesis by (rule registryOk_same [OF ok])
  qed
qed

lemma registryOk_onDisconnect:
  assumes "registryOk st" and "s \<in> set (sockets st)"
  shows "registryOk (onDisconnect s r now st)"
proof (rule registryOkI)
  have dk: "distinct (mapKeys (activeConnections st))" using assms(1) by (rule registryOk_keys)
  have ds: "distinct (map sid (sockets st))" using assms(1) by (rule registryOk_sids)
  show "distinct (mapKeys (activeConnections (onDisconnect s r now st)))"
    using dk by (simp add: onDisconnect_fields distinct_mapDelete)
  show "distinct (map sid (sockets (onDisconnect s r now st)))"
    using ds by (simp add: onDisconnect_fields distinct_map_filter)
  fix u c
  assume "(u, c) \<in> set (activeConnections (onDisconnect s r now st))"
  then have del: "(u, c) \<in> set (mapDelete (userId s) (activeConnections st))"
    by (simp add: onDisconnect_fields)
  then have mem: "(u, c) \<in> set (activeConnections st)"
    using set_mapDelete_subset by fastforce
  from del have "u \<in> set (mapKeys (mapDelete (userId s) (activeConnections st)))"
    by (force simp: mapKeys_def)
  then have ne: "u \<noteq> userId s" using dk by (simp add: mapKeys_mapDelete)
  from mem assms(1) have ok: "entryOk (sockets st) u c" by (simp add: registryOk_entry)
  have "sid (socket c) \<noteq> sid s"
  proof
    assume eq: "sid (socket c) = sid s"
    have "socket c \<in> set (sockets st)" using ok by (simp add: entryOk_def)
    with ds assms(2) eq have "socket c = s" by (meson distinct_map inj_onD)
    with ok ne show False by (simp add: entryOk_def)
  qed
  with ok show "entryOk (sockets (onDisconnect s r now st)) u c"
    by (simp add: entryOk_def onDisconnect_fields)
qed

lemma registryOk_delete:
  assumes "registryOk st"
  shows "registryOk (st\<lparr>activeConnections := mapDelete u (activeConnections st)\<rparr>)"
proof (rule registryOkI)
  let ?st = "st\<lparr>activeConnections := mapDelete u (activeConnections st)\<rparr>"
  show "distinct (mapKeys (activeConnections ?st))"
    using assms by (simp add: registryOk_keys distinct_mapDelete)
  show "distinct (map sid (sockets ?st))" using assms by (simp add: registryOk_sids)
  fix k c
  assume "(k, c) \<in> set (activeConnections ?st)"
  then have "(k, c) \<in> set (activeConnections st)"
    using set_mapDelete_subset [of u "activeConnections st"] by auto
  then show "entryOk (sockets ?st) k c" using assms by (simp add: registryOk_entry)
qed

lemma registryOk_serverDisconnect: "registryOk st \<Longrightarrow> registryOk (serverDisconnect s now st)"
  by (simp add: serverDisconnect_def registryOk_onDisconnect)

lemma registryOk_cleanupLoop: "registryOk st \<Longrightarrow> registryOk (cleanupLoop now us st)"
proof (induction us arbitrary: st)
  case Nil
  then show ?case by simp
next
  case (Cons u us)
  show ?case
  proof (cases "mapGet (activeConnections st) u")
    case None
    then show ?thesis using Cons by simp
  next
    case (Some c)
    show ?thesis
    proof (cases "now - lastActivityOf c > inactiveThreshold")
      case True
      let ?st1 = "serverDisconnect (socket c) now st"
      have "registryOk ?st1"
        using Cons.prems by (rule registryOk_serverDisconnect)
      then have "registryOk (?st1\<lparr>activeConnections := mapDelete u (activeConnections ?st1)\<rparr>)"
        by (rule registryOk_delete)
      then have "registryOk (cleanupLoop now us
                   (?st1\<lparr>activeConnections := mapDelete u (activeConnections ?st1)\<rparr>))"
        by (rule Cons.IH)
      then show ?thesis using Some True by (simp add: Let_def)
    next
      case False
      then show ?thesis using Some Cons by simp
    qed
  qed
qed

lemma reachable_registryOk: "reachable st \<Longrightarrow> registryOk st"
proof (induction rule: reachable.induct)
  case init
  show ?case by (simp add: registryOk_def initServer_def mapKeys_def)
next
  case (connect st s now)
  then show ?case by (simp add: registryOk_onConnection)
next
  case (message st s m now)
  then show ?case by (simp add: registryOk_onMessage)
next
  case (disconnect st s reason now)
  then show ?case by (simp add: registryOk_onDisconnect)
next
  case (tick st now)
  then show ?case by (simp add: cleanup_def registryOk_cleanupLoop)
next
  case (send st u ev data now)
  then show ?case by (rule_tac registryOk_same) simp_all
next
  case (sendAll st ev data now)
  then show ?case by (rule_tac registryOk_same) simp_all
qed


section \<open>Delivery to a user\<close>

lemma reachable_entry_live:
  assumes "reachable st" and "getUserConnection st u = Some c"
  shows "socket c \<in> set (sockets st)" and "userId (socket c) = u"
proof -
  have "(u, c) \<in> set (activeConnections st)"
    using assms(2) by (simp add: getUserConnection_def mapGet_Some_mem)
  then have "entryOk (sockets st) u c"
    using assms(1) by (simp add: reachable_registryOk registryOk_entry)
  then show "socket c \<in> set (sockets st)" and "userId (socket c) = u"
    by (simp_all add: entryOk_def)
qed

lemma outbox_emit:
  "outbox (emit s ev d st) =
     (if s \<in> set (sockets st) then outbox st @ [\<lparr>recipient = sid s, event = ev, payload = d\<rparr>]
      else outbox st)"
  by (simp add: emit_def)

lemma delivered_append: "outbox st' = outbox st @ fs \<Longrightarrow> delivered st st' = fs"
  by (simp add: delivered_def)

lemma sendToUser_registered:
  assumes "reachable st" and "getUserConnection st u = Some c"
  shows "fst (sendToUser u ev d now st)"
    and "outbox (snd (sendToUser u ev d now st)) =
           outbox st @ [\<lparr>recipient = sid (socket c), event = ev,
                         payload = mapSet ''timestamp'' (JDate now) d\<rparr>]"
proof -
  have live: "socket c \<in> set (sockets st)" using assms by (rule reachable_entry_live)
  have get: "mapGet (activeConnections st) u = Some c"
    using assms(2) by (simp add: getUserConnection_def)
  show "fst (sendToUser u ev d now st)" using get by (simp add: sendToUser_def)
  show "outbox (snd (sendToUser u ev d now st)) =
           outbox st @ [\<lparr>recipient = sid (socket c), event = ev,
                         payload = mapSet ''timestamp'' (JDate now) d\<rparr>]"
    using get live by (simp add: sendToUser_def outbox_emit)
qed

lemma sendToUser_unregistered:
  assumes "getUserConnection st u = None"
  shows "sendToUser u ev d now st = (False, st)"
  using assms by (simp add: sendToUser_def getUserConnection_def)

lemma length_filter_others:
  "distinct (map sid xs) \<Longrightarrow> s \<in> set xs \<Longrightarrow>
   length (filter (\<lambda>r. sid r \<noteq> sid s) xs) = length xs - 1"
proof (induction xs)
  case Nil
  then show ?case by simp
next
  case (Cons x xs)
  show ?case
  proof (cases "x = s")
    case True
    then have "sid s \<notin> sid ` set xs" using Cons.prems(1) by simp
    then have "\<forall>x\<in>set xs. sid x \<noteq> sid s" by (metis imageI)
    then have "filter (\<lambda>r. sid r \<noteq> sid s) xs = xs" by simp
    with True show ?thesis by simp
  next
    case False
    then have mem: "s \<in> set xs" using Cons.prems(2) by simp
    then have "sid x \<noteq> sid s" using Cons.prems(1) by force
    moreover have "length (filter (\<lambda>r. sid r \<noteq> sid s) xs) = length xs - 1"
      using Cons.IH Cons.prems(1) mem by simp
    moreover have "0 < length xs" using mem by (cases xs) auto
    ultimately show ?thesis by simp
  qed
qed

lemma toRoomEmit_count:
  assumes "reachable st" and "s \<in> set (sockets st)"
  shows "length (delivered st (toRoomEmit s (userId s) ev d st)) = liveConnections st (userId s) - 1"
proof -
  have ds: "distinct (map sid (roomMembers st (userId s)))"
    using assms(1) by (simp add: roomMembers_def reachable_registryOk registryOk_sids distinct_map_filter)
  have mem: "s \<in> set (roomMembers st (userId s))" using assms(2) by (simp add: roomMembers_def)
  have "delivered st (toRoomEmit s (userId s) ev d st) =
          map (\<lambda>r. \<lparr>recipient = sid r, event = ev, payload = d\<rparr>)
              (filter (\<lambda>r. sid r \<noteq> sid s) (roomMembers st (userId s)))"
    by (rule delivered_append) (simp add: toRoomEmit_def)
  then show ?thesis using length_filter_others [OF ds mem] by (simp add: liveConnections_def)
qed

text \<open>
  C1, amended. \<open>sendToUser(userId, E, P)\<close> takes no \<open>excludeId\<close>. In every reachable state
  it delivers \<open>E\<close> (with the payload stamped with the time) to exactly one connection, the
  one the registry holds for \<open>userId\<close>, which is a live connection of that user, and returns
  true; when the registry holds none it delivers nothing and returns false. The fan-out
  that leaves the sender out is \<open>socket.to(room).emit\<close>: from a live connection of a user with
  \<open>N\<close> live connections it delivers to exactly \<open>N - 1\<close>.
\<close>

theorem sendToUser_single_delivery:
  assumes "reachable st"
  shows "(case getUserConnection st u of
            Some c \<Rightarrow>
              fst (sendToUser u ev d now st) \<and>
              delivered st (snd (sendToUser u ev d now st)) =
                [\<lparr>recipient = sid (socket c), event = ev,
                  payload = mapSet ''timestamp'' (JDate now) d\<rparr>] \<and>
              socket c \<in> set (roomMembers st u)
          | None \<Rightarrow>
              \<not> fst (sendToUser u ev d now st) \<and>
              delivered st (snd (sendToUser u ev d now st)) = [])
       \<and> (\<forall>s \<in> set (sockets st).
            length (delivered st (toRoomEmit s (userId s) ev d st))
              = liveConnections st (userId s) - 1)"
proof -
  have one: ?thesis if "getUserConnection st u = Some c" for c
  proof -
    have "socket c \<in> set (roomMembers st u)"
      using reachable_entry_live [OF assms that] by (simp add: roomMembers_def)
    moreover have "delivered st (snd (sendToUser u ev d now st)) =
                [\<lparr>recipient = sid (socket c), event = ev,
                  payload = mapSet ''timestamp'' (JDate now) d\<rparr>]"
      by (rule delivered_append) (rule sendToUser_registered(2) [OF assms that])
    ultimately show ?thesis
      using that sendToUser_registered(1) [OF assms that] toRoomEmit_count [OF assms]
      by simp
  qed
  have none: ?thesis if "getUserConnection st u = None"
    using that toRoomEmit_count [OF assms]
    by (simp add: sendToUser_unregistered delivered_def)
  show ?thesis using one none by (cases "getUserConnection st u") blast+
qed

lemma twoDevices_reachable: "reachable twoDevices"
  unfolding twoDevices_def
  by (intro reachable.connect reachable.init)
     (simp_all add: onConnection_fields initServer_def phone_def laptop_def)


lemma threeDevices_reachable: "reachable threeDevices"
  unfolding threeDevices_def
  by (rule reachable.connect [OF twoDevices_reachable])
     (simp add: twoDevices_def onConnection_fields initServer_def phone_def laptop_def tablet_def)

lemma twoDevices_value:
  "activeConnections twoDevices =
     [(''u1'', \<lparr>socketId = ''s2'', socket = laptop, connectedAt = 2,
                lastActivity = None, cstatus = None\<rparr>)]"
  "sockets twoDevices = [phone, laptop]"
  by (simp_all add: twoDevices_def onConnection_fields initServer_def phone_def laptop_def)

lemma threeDevices_value:
  "activeConnections threeDevices =
     [(''u1'', \<lparr>socketId = ''s2'', socket = laptop, connectedAt = 2,
                lastActivity = None, cstatus = None\<rparr>),
      (''u2'', \<lparr>socketId = ''s3'', socket = tablet, connectedAt = 3,
                lastActivity = None, cstatus = None\<rparr>)]"
  "sockets threeDevices = [phone, laptop, tablet]"
  by (simp_all add: threeDevices_def twoDevices_value onConnection_fields tablet_def)

theorem sendToUser_single_delivery_witness:
  "fst (sendToUser ''u1'' ''goal:created'' [] 3 twoDevices)
   \<and> delivered twoDevices (snd (sendToUser ''u1'' ''goal:created'' [] 3 twoDevices)) =
       [\<lparr>recipient = ''s2'', event = ''goal:created'', payload = [(''timestamp'', JDate 3)]\<rparr>]
   \<and> length (delivered twoDevices (toRoomEmit phone ''u1'' ''goal:created'' [] twoDevices)) = 1"
proof -
  have c: "getUserConnection twoDevices ''u1'' =
            Some \<lparr>socketId = ''s2'', socket = laptop, connectedAt = 2,
                  lastActivity = None, cstatus = None\<rparr>"
    by (simp add: getUserConnection_def twoDevices_value)
  have p: "phone \<in> set (sockets twoDevices)" by (simp add: twoDevices_value)
  have n: "liveConnections twoDevices ''u1'' = 2"
    by (simp add: liveConnections_def roomMembers_def twoDevices_value phone_def laptop_def)
  have u: "userId phone = ''u1''" by (simp add: phone_def)
  note h = sendToUser_single_delivery [OF twoDevices_reachable, of "''u1''" "''goal:created''" "[]" 3]
  from h c have one: "fst (sendToUser ''u1'' ''goal:created'' [] 3 twoDevices)
      \<and> delivered twoDevices (snd (sendToUser ''u1'' ''goal:created'' [] 3 twoDevices)) =
          [\<lparr>recipient = ''s2'', event = ''goal:created'', payload = [(''timestamp'', JDate 3)]\<rparr>]"
    by (simp add: laptop_def)
  from h have "\<forall>s \<in> set (sockets twoDevices).
      length (delivered twoDevices (toRoomEmit s (userId s) ''goal:created'' [] twoDevices))
        = liveConnections twoDevices (userId s) - 1" by blast
  with p have "length (delivered twoDevices (toRoomEmit phone (userId phone) ''goal:created'' [] twoDevices))
        = liveConnections twoDevices (userId phone) - 1" by blast
  with u n have "length (delivered twoDevices (toRoomEmit phone ''u1'' ''goal:created'' [] twoDevices)) = 1"
    by simp
  with one show ?thesis by blast
qed

text \<open>
  The claim as stated fails: with two live connections of one user and nothing excluded,
  \<open>sendToUser\<close> reaches one connection, not two.
\<close>

theorem sendToUser_counterexample:
  "liveConnections twoDevices ''u1'' = 2
   \<and> length (delivered twoDevices (snd (sendToUser ''u1'' ''goal:created'' [] 3 twoDevices))) = 1
   \<and> length (delivered twoDevices (snd (sendToUser ''u1'' ''goal:created'' [] 3 twoDevices)))
       \<noteq> liveConnections twoDevices ''u1''"
  by (simp add: twoDevices_def onConnection_def sendToUser_def emit_def Let_def initServer_def
        phone_def laptop_def liveConnections_def roomMembers_def delivered_def)


section \<open>Disconnection\<close>

text \<open>
  C10. When a connected socket disconnects, the registry entry of its user is deleted,
  whichever socket that entry holds: afterwards the registry has no entry for that user
  and \<open>sendToUser\<close> to that user returns false, the user's other sockets stay connected,
  and the entries of all other users are unchanged.
\<close>

theorem disconnect_deletes_user_entry:
  assumes "reachable st" and "s \<in> set (sockets st)"
  shows "getUserConnection (onDisconnect s reason now st) (userId s) = None
       \<and> \<not> fst (sendToUser (userId s) ev d t (onDisconnect s reason now st))
       \<and> (\<forall>s2 \<in> set (sockets st). sid s2 \<noteq> sid s \<longrightarrow>
             s2 \<in> set (sockets (onDisconnect s reason now st)))
       \<and> (\<forall>u. u \<noteq> userId s \<longrightarrow>
             getUserConnection (onDisconnect s reason now st) u = getUserConnection st u)"
proof -
  have dk: "distinct (mapKeys (activeConnections st))"
    using assms(1) by (simp add: reachable_registryOk registryOk_keys)
  have gone: "getUserConnection (onDisconnect s reason now st) (userId s) = None"
    using dk by (simp add: getUserConnection_def onDisconnect_fields mapGet_mapDelete_same)
  then have "sendToUser (userId s) ev d t (onDisconnect s reason now st)
               = (False, onDisconnect s reason now st)"
    by (rule sendToUser_unregistered)
  then have nosend: "\<not> fst (sendToUser (userId s) ev d t (onDisconnect s reason now st))"
    by simp
  have others: "\<forall>s2 \<in> set (sockets st). sid s2 \<noteq> sid s \<longrightarrow>
                  s2 \<in> set (sockets (onDisconnect s reason now st))"
    by (simp add: onDisconnect_fields)
  have frame: "\<forall>u. u \<noteq> userId s \<longrightarrow>
                 getUserConnection (onDisconnect s reason now st) u = getUserConnection st u"
    by (simp add: getUserConnection_def onDisconnect_fields mapGet_mapDelete_other)
  from gone nosend others frame show ?thesis by blast
qed

theorem disconnect_deletes_user_entry_witness:
  "getUserConnection threeDevices ''u1'' =
     Some \<lparr>socketId = ''s2'', socket = laptop, connectedAt = 2, lastActivity = None, cstatus = None\<rparr>
   \<and> getUserConnection (onDisconnect phone ''transport close'' 4 threeDevices) ''u1'' = None
   \<and> \<not> fst (sendToUser ''u1'' ''goal:created'' [] 5 (onDisconnect phone ''transport close'' 4 threeDevices))
   \<and> laptop \<in> set (sockets (onDisconnect phone ''transport close'' 4 threeDevices))
   \<and> getUserConnection (onDisconnect phone ''transport close'' 4 threeDevices) ''u2''
       = getUserConnection threeDevices ''u2''"
proof -
  have p: "phone \<in> set (sockets threeDevices)" by (simp add: threeDevices_value)
  have l: "laptop \<in> set (sockets threeDevices)" by (simp add: threeDevices_value)
  have ne: "sid laptop \<noteq> sid phone" by (simp add: laptop_def phone_def)
  have u: "userId phone = ''u1''" "''u2'' \<noteq> userId phone" by (simp_all add: phone_def)
  have before: "getUserConnection threeDevices ''u1'' =
     Some \<lparr>socketId = ''s2'', socket = laptop, connectedAt = 2, lastActivity = None, cstatus = None\<rparr>"
    by (simp add: getUserConnection_def threeDevices_value)
  note h = disconnect_deletes_user_entry [OF threeDevices_reachable p,
             of "''transport close''" 4 "''goal:created''" "[]" 5]
  from h u have a: "getUserConnection (onDisconnect phone ''transport close'' 4 threeDevices) ''u1'' = None"
    by simp
  from h u have b: "\<not> fst (sendToUser ''u1'' ''goal:created'' [] 5
                        (onDisconnect phone ''transport close'' 4 threeDevices))"
    by simp
  from h l ne have c: "laptop \<in> set (sockets (onDisconnect phone ''transport close'' 4 threeDevices))"
    by blast
  from h u(2) have d: "getUserConnection (onDisconnect phone ''transport close'' 4 threeDevices) ''u2''
       = getUserConnection threeDevices ''u2''" by blast
  from before a b c d show ?thesis by blast
qed


section \<open>Idle cleanup\<close>

lemma cleanup_step_registry:
  assumes "registryOk st" and "mapGet (activeConnections st) k = Some ck"
  shows "mapGet (mapDelete k (activeConnections (serverDisconnect (socket ck) now st))) u
           = (if u = k then None else mapGet (activeConnections st) u)"
proof -
  have dk: "distinct (mapKeys (activeConnections st))" using assms(1) by (rule registryOk_keys)
  have "entryOk (sockets st) k ck"
    using assms by (simp add: registryOk_entry mapGet_Some_mem)
  then have uk: "userId (socket ck) = k" by (simp add: entryOk_def)
  have dk1: "distinct (mapKeys (activeConnections (serverDisconnect (socket ck) now st)))"
    using assms(1) by (simp add: registryOk_serverDisconnect registryOk_keys)
  have other: "mapGet (activeConnections (serverDisconnect (socket ck) now st)) u
                 = mapGet (activeConnections st) u" if "u \<noteq> k"
    using that uk by (simp add: serverDisconnect_def onDisconnect_fields mapGet_mapDelete_other)
  show ?thesis
  proof (cases "u = k")
    case True
    then show ?thesis using dk1 by (simp add: mapGet_mapDelete_same)
  next
    case False
    then show ?thesis using other by (simp add: mapGet_mapDelete_other)
  qed
qed

lemma cleanupLoop_registry:
  "registryOk st \<Longrightarrow>
   mapGet (activeConnections (cleanupLoop now us st)) u =
     (case mapGet (activeConnections st) u of
        None \<Rightarrow> None
      | Some c \<Rightarrow> if u \<in> set us \<and> now - lastActivityOf c > inactiveThreshold then None else Some c)"
proof (induction us arbitrary: st)
  case Nil
  then show ?case by (simp split: option.splits)
next
  case (Cons k us)
  show ?case
  proof (cases "mapGet (activeConnections st) k")
    case None
    then have "cleanupLoop now (k # us) st = cleanupLoop now us st" by simp
    then show ?thesis using Cons.IH [OF Cons.prems] None by (auto split: option.splits)
  next
    case (Some ck)
    show ?thesis
    proof (cases "now - lastActivityOf ck > inactiveThreshold")
      case False
      then have "cleanupLoop now (k # us) st = cleanupLoop now us st" using Some by simp
      then show ?thesis using Cons.IH [OF Cons.prems] Some False by (auto split: option.splits)
    next
      case True
      let ?st1 = "serverDisconnect (socket ck) now st"
      let ?st2 = "?st1\<lparr>activeConnections := mapDelete k (activeConnections ?st1)\<rparr>"
      have ok2: "registryOk ?st2"
        using Cons.prems by (simp add: registryOk_serverDisconnect registryOk_delete)
      have loop: "cleanupLoop now (k # us) st = cleanupLoop now us ?st2"
        using Some True by (simp add: Let_def)
      have reg2: "mapGet (activeConnections ?st2) u = (if u = k then None else mapGet (activeConnections st) u)"
        using cleanup_step_registry [OF Cons.prems Some] by simp
      show ?thesis
        unfolding loop Cons.IH [OF ok2] reg2
        using Some True by (auto split: option.splits)
    qed
  qed
qed

lemma cleanup_registry:
  assumes "reachable st" and "getUserConnection st u = Some c"
  shows "getUserConnection (cleanup now st) u =
           (if now - lastActivityOf c > inactiveThreshold then None else Some c)"
proof -
  have "u \<in> set (mapKeys (activeConnections st))"
    using assms(2) mapGet_None_iff [of "activeConnections st" u]
    by (auto simp: getUserConnection_def)
  then show ?thesis
    using assms cleanupLoop_registry [OF reachable_registryOk [OF assms(1)]]
    by (simp add: getUserConnection_def cleanup_def)
qed

text \<open>
  C8. One cleanup pass at time \<open>now\<close>, with the threshold of 30 minutes: a registry entry
  whose last recorded activity (or connection time, when none is recorded) is more than
  30 minutes before \<open>now\<close> is absent afterwards, and an entry within the threshold is still
  present, unchanged. The timer fires every 5 minutes.
\<close>

theorem cleanup_reaps_idle_only:
  assumes "reachable st" and "getUserConnection st u = Some c"
  shows "(now - lastActivityOf c > 30 * 60 * 1000 \<longrightarrow> getUserConnection (cleanup now st) u = None)
       \<and> (now - lastActivityOf c \<le> 30 * 60 * 1000 \<longrightarrow> getUserConnection (cleanup now st) u = Some c)
       \<and> inactiveThreshold = 30 * 60 * 1000
       \<and> cleanupInterval = 5 * 60 * 1000
       \<and> cleanupTime t0 (Suc k) - cleanupTime t0 k = cleanupInterval"
proof -
  have "cleanupTime t0 (Suc k) - cleanupTime t0 k = cleanupInterval"
    by (simp add: cleanupTime_def algebra_simps)
  then show ?thesis
    using cleanup_registry [OF assms, of now]
    by (simp add: inactiveThreshold_def cleanupInterval_def)
qed

lemma afterPresence_reachable: "reachable afterPresence"
  unfolding afterPresence_def
  by (rule reachable.message [OF threeDevices_reachable]) (simp add: threeDevices_value)

lemma afterPresence_value:
  "activeConnections afterPresence =
     [(''u1'', \<lparr>socketId = ''s2'', socket = laptop, connectedAt = 2,
                lastActivity = None, cstatus = None\<rparr>),
      (''u2'', \<lparr>socketId = ''s3'', socket = tablet, connectedAt = 3,
                lastActivity = Some 1859002, cstatus = Some (JStr ''away'')\<rparr>)]"
  by (simp add: afterPresence_def onMessage_registry_presence threeDevices_value tablet_def field_def)

theorem cleanup_reaps_idle_only_witness:
  "getUserConnection (cleanup (2 + 31 * 60 * 1000) afterPresence) ''u1'' = None
   \<and> getUserConnection (cleanup (2 + 31 * 60 * 1000) afterPresence) ''u2''
       = Some \<lparr>socketId = ''s3'', socket = tablet, connectedAt = 3,
               lastActivity = Some (2 + 31 * 60 * 1000 - 1000), cstatus = Some (JStr ''away'')\<rparr>"
proof -
  let ?c1 = "\<lparr>socketId = ''s2'', socket = laptop, connectedAt = 2, lastActivity = None, cstatus = None\<rparr>"
  let ?c2 = "\<lparr>socketId = ''s3'', socket = tablet, connectedAt = 3,
              lastActivity = Some 1859002, cstatus = Some (JStr ''away'')\<rparr>"
  have c1: "getUserConnection afterPresence ''u1'' = Some ?c1"
    by (simp add: getUserConnection_def afterPresence_value)
  have c2: "getUserConnection afterPresence ''u2'' = Some ?c2"
    by (simp add: getUserConnection_def afterPresence_value)
  have l1: "lastActivityOf ?c1 = 2" and l2: "lastActivityOf ?c2 = 1859002"
    by (simp_all add: lastActivityOf_def)
  from cleanup_reaps_idle_only [OF afterPresence_reachable c1, of "2 + 31 * 60 * 1000"] l1
  have a: "getUserConnection (cleanup (2 + 31 * 60 * 1000) afterPresence) ''u1'' = None" by simp
  from cleanup_reaps_idle_only [OF afterPresence_reachable c2, of "2 + 31 * 60 * 1000"] l2
  have b: "getUserConnection (cleanup (2 + 31 * 60 * 1000) afterPresence) ''u2'' = Some ?c2" by simp
  from a b show ?thesis by simp
qed


section \<open>One registry entry per user\<close>

lemma cleanupLoop_sockets_kept:
  assumes "registryOk st" and "s \<in> set (sockets st)"
    and "\<And>u c. (u, c) \<in> set (activeConnections st) \<Longrightarrow> socket c \<noteq> s"
  shows "s \<in> set (sockets (cleanupLoop now us st))"
  using assms
proof (induction us arbitrary: st)
  case Nil
  then show ?case by simp
next
  case (Cons k us)
  show ?case
  proof (cases "mapGet (activeConnections st) k")
    case None
    then show ?thesis using Cons by simp
  next
    case (Some ck)
    show ?thesis
    proof (cases "now - lastActivityOf ck > inactiveThreshold")
      case False
      then show ?thesis using Some Cons by simp
    next
      case True
      let ?st1 = "serverDisconnect (socket ck) now st"
      let ?st2 = "?st1\<lparr>activeConnections := mapDelete k (activeConnections ?st1)\<rparr>"
      have loop: "cleanupLoop now (k # us) st = cleanupLoop now us ?st2"
        using Some True by (simp add: Let_def)
      have ok2: "registryOk ?st2"
        using Cons.prems(1) by (simp add: registryOk_serverDisconnect registryOk_delete)
      have mem: "(k, ck) \<in> set (activeConnections st)" using Some by (rule mapGet_Some_mem)
      then have ne: "socket ck \<noteq> s" by (rule Cons.prems(3))
      have live: "socket ck \<in> set (sockets st)"
        using registryOk_entry [OF Cons.prems(1) mem] by (simp add: entryOk_def)
      have "sid (socket ck) \<noteq> sid s"
      proof
        assume "sid (socket ck) = sid s"
        with registryOk_sids [OF Cons.prems(1)] live Cons.prems(2) have "socket ck = s"
          by (meson distinct_map inj_onD)
        with ne show False by simp
      qed
      then have s2: "s \<in> set (sockets ?st2)"
        using Cons.prems(2) by (simp add: serverDisconnect_def onDisconnect_fields)
      have "set (activeConnections ?st1) \<subseteq> set (activeConnections st)"
        by (simp add: serverDisconnect_def onDisconnect_fields set_mapDelete_subset)
      moreover have "set (activeConnections ?st2) \<subseteq> set (activeConnections ?st1)"
        by (simp add: set_mapDelete_subset)
      ultimately have sub: "set (activeConnections ?st2) \<subseteq> set (activeConnections st)"
        by (rule order_trans [rotated])
      have "s \<in> set (sockets (cleanupLoop now us ?st2))"
      proof (rule Cons.IH [OF ok2 s2])
        fix u c
        assume "(u, c) \<in> set (activeConnections ?st2)"
        with sub have "(u, c) \<in> set (activeConnections st)" by blast
        then show "socket c \<noteq> s" by (rule Cons.prems(3))
      qed
      then show ?thesis by (simp only: loop)
    qed
  qed
qed

text \<open>
  C2. In every reachable state the registry holds at most one entry per user id. When a
  user who has a connected socket \<open>s1\<close> connects a second socket \<open>s2\<close>, the entry of that
  user is overwritten: \<open>getUserConnection\<close> returns the entry of \<open>s2\<close>, \<open>sendToUser\<close>
  delivers to \<open>s2\<close> alone, and no cleanup pass ever disconnects \<open>s1\<close>, which stays
  connected.
\<close>

theorem registry_one_entry_per_user:
  assumes "reachable st"
  shows "distinct (getActiveUsers st)
       \<and> (\<forall>s1 s2 now. s1 \<in> set (sockets st) \<and> userId s1 = userId s2
                      \<and> sid s2 \<notin> sid ` set (sockets st) \<longrightarrow>
            s1 \<in> set (sockets (onConnection s2 now st))
          \<and> getUserConnection (onConnection s2 now st) (userId s1) =
              Some \<lparr>socketId = sid s2, socket = s2, connectedAt = now,
                    lastActivity = None, cstatus = None\<rparr>
          \<and> (\<forall>ev d t. delivered (onConnection s2 now st)
                         (snd (sendToUser (userId s1) ev d t (onConnection s2 now st))) =
                       [\<lparr>recipient = sid s2, event = ev,
                         payload = mapSet ''timestamp'' (JDate t) d\<rparr>])
          \<and> (\<forall>t. s1 \<in> set (sockets (cleanup t (onConnection s2 now st)))))"
proof -
  have keys: "distinct (getActiveUsers st)"
    using assms by (simp add: getActiveUsers_def reachable_registryOk registryOk_keys)
  have second: "s1 \<in> set (sockets (onConnection s2 now st))
          \<and> getUserConnection (onConnection s2 now st) (userId s1) =
              Some \<lparr>socketId = sid s2, socket = s2, connectedAt = now,
                    lastActivity = None, cstatus = None\<rparr>
          \<and> (\<forall>ev d t. delivered (onConnection s2 now st)
                         (snd (sendToUser (userId s1) ev d t (onConnection s2 now st))) =
                       [\<lparr>recipient = sid s2, event = ev,
                         payload = mapSet ''timestamp'' (JDate t) d\<rparr>])
          \<and> (\<forall>t. s1 \<in> set (sockets (cleanup t (onConnection s2 now st))))"
    if h: "s1 \<in> set (sockets st)" "userId s1 = userId s2" "sid s2 \<notin> sid ` set (sockets st)"
    for s1 s2 now
  proof -
    let ?st = "onConnection s2 now st"
    let ?c = "\<lparr>socketId = sid s2, socket = s2, connectedAt = now,
               lastActivity = None, cstatus = None\<rparr>"
    have r: "reachable ?st" using assms h(3) by (rule reachable.connect)
    have ok: "registryOk ?st" using r by (rule reachable_registryOk)
    have open1: "s1 \<in> set (sockets ?st)" using h(1) by (simp add: onConnection_fields)
    have get: "getUserConnection ?st (userId s1) = Some ?c"
      using h(2) by (simp add: getUserConnection_def onConnection_fields mapGet_mapSet)
    have send: "delivered ?st (snd (sendToUser (userId s1) ev d t ?st)) =
                  [\<lparr>recipient = sid s2, event = ev, payload = mapSet ''timestamp'' (JDate t) d\<rparr>]"
      for ev d t
      using sendToUser_registered(2) [OF r get, of ev d t] by (simp add: delivered_append)
    have ne12: "s2 \<noteq> s1" using h(1,3) by auto
    have hidden: "socket c \<noteq> s1" if "(u, c) \<in> set (activeConnections ?st)" for u c
    proof (cases "u = userId s1")
      case True
      have "mapGet (activeConnections ?st) u = Some c"
        using registryOk_keys [OF ok] that by (rule mem_mapGet)
      with True get have "c = ?c" by (simp add: getUserConnection_def)
      with ne12 show ?thesis by simp
    next
      case False
      have "entryOk (sockets ?st) u c" using ok that by (rule registryOk_entry)
      with False show ?thesis by (auto simp: entryOk_def)
    qed
    have swept: "s1 \<in> set (sockets (cleanup t ?st))" for t
      unfolding cleanup_def using ok open1 hidden by (rule cleanupLoop_sockets_kept)
    from open1 get send swept show ?thesis by blast
  qed
  from keys second show ?thesis by blast
qed

theorem registry_one_entry_per_user_witness:
  "distinct (getActiveUsers (onConnection phone 1 initServer))
   \<and> phone \<in> set (sockets twoDevices)
   \<and> getUserConnection twoDevices ''u1'' =
       Some \<lparr>socketId = ''s2'', socket = laptop, connectedAt = 2, lastActivity = None, cstatus = None\<rparr>
   \<and> delivered twoDevices (snd (sendToUser ''u1'' ''goal:created'' [] 3 twoDevices)) =
       [\<lparr>recipient = ''s2'', event = ''goal:created'', payload = [(''timestamp'', JDate 3)]\<rparr>]
   \<and> phone \<in> set (sockets (cleanup (1 + 31 * 60 * 1000) twoDevices))"
proof -
  let ?st = "onConnection phone 1 initServer"
  have r: "reachable ?st"
    by (rule reachable.connect [OF reachable.init]) (simp add: initServer_def)
  have p: "phone \<in> set (sockets ?st)" by (simp add: onConnection_fields)
  have u: "userId phone = userId laptop" "userId phone = ''u1''" "sid laptop = ''s2''"
    by (simp_all add: phone_def laptop_def)
  have f: "sid laptop \<notin> sid ` set (sockets ?st)"
    by (simp add: onConnection_fields initServer_def phone_def laptop_def)
  note h = registry_one_entry_per_user [OF r]
  from h have d: "distinct (getActiveUsers ?st)" by blast
  from h p u(1) f have
    "phone \<in> set (sockets (onConnection laptop 2 ?st))
     \<and> getUserConnection (onConnection laptop 2 ?st) (userId phone) =
         Some \<lparr>socketId = sid laptop, socket = laptop, connectedAt = 2,
               lastActivity = None, cstatus = None\<rparr>
     \<and> (\<forall>ev d t. delivered (onConnection laptop 2 ?st)
                    (snd (sendToUser (userId phone) ev d t (onConnection laptop 2 ?st))) =
                  [\<lparr>recipient = sid laptop, event = ev,
                    payload = mapSet ''timestamp'' (JDate t) d\<rparr>])
     \<and> (\<forall>t. phone \<in> set (sockets (cleanup t (onConnection laptop 2 ?st))))"
    by blast
  then show ?thesis using d u by (simp add: twoDevices_def)
qed


section \<open>Recorded activity\<close>

text \<open>
  C7, amended. Of the recognized inbound frames only \<open>presence:update\<close> records activity:
  it sets \<open>lastActivity\<close> of the registry entry of the sender's user (when there is one) to
  the time of the frame. Every other recognized frame leaves the whole registry, and with
  it every \<open>lastActivity\<close>, as it was.
\<close>

theorem only_presence_records_activity:
  "(\<forall>data c. m = PresenceUpdate data \<and> getUserConnection st (userId s) = Some c \<longrightarrow>
       map_option lastActivity (getUserConnection (onMessage s m now st) (userId s))
         = Some (Some now))
   \<and> ((\<forall>data. m \<noteq> PresenceUpdate data) \<longrightarrow>
       activeConnections (onMessage s m now st) = activeConnections st)"
proof -
  have "map_option lastActivity (getUserConnection (onMessage s m now st) (userId s)) = Some (Some now)"
    if "m = PresenceUpdate data" "getUserConnection st (userId s) = Some c" for data c
    using that by (simp add: getUserConnection_def onMessage_registry_presence mapGet_mapSet)
  moreover have "activeConnections (onMessage s m now st) = activeConnections st"
    if "\<forall>data. m \<noteq> PresenceUpdate data"
    using that by (rule onMessage_registry_other)
  ultimately show ?thesis by blast
qed

theorem only_presence_records_activity_witness:
  "map_option lastActivity
     (getUserConnection (onMessage laptop (PresenceUpdate []) 9 twoDevices) ''u1'') = Some (Some 9)
   \<and> activeConnections (onMessage laptop (GoalProgress []) 9 twoDevices) = activeConnections twoDevices"
proof -
  have c: "getUserConnection twoDevices (userId laptop) =
            Some \<lparr>socketId = ''s2'', socket = laptop, connectedAt = 2,
                  lastActivity = None, cstatus = None\<rparr>"
    by (simp add: getUserConnection_def twoDevices_value laptop_def)
  have u: "userId laptop = ''u1''" by (simp add: laptop_def)
  from only_presence_records_activity [of "PresenceUpdate []" twoDevices laptop 9] c
  have a: "map_option lastActivity
     (getUserConnection (onMessage laptop (PresenceUpdate []) 9 twoDevices) (userId laptop)) = Some (Some 9)"
    by blast
  have "\<forall>data. GoalProgress [] \<noteq> PresenceUpdate data" by simp
  with only_presence_records_activity [of "GoalProgress []" twoDevices laptop 9]
  have b: "activeConnections (onMessage laptop (GoalProgress []) 9 twoDevices) = activeConnections twoDevices"
    by blast
  from a b u show ?thesis by simp
qed

text \<open>
  The claim as stated fails: a \<open>health-data:update\<close> frame at time 9 on the only connection
  of a user leaves that connection without any recorded activity.
\<close>

theorem health_data_update_counterexample:
  "map_option lastActivity
     (getUserConnection (onMessage phone (HealthDataUpdate []) 9 (onConnection phone 1 initServer)) ''u1'')
     = Some None
   \<and> map_option lastActivity
     (getUserConnection (onMessage phone (HealthDataUpdate []) 9 (onConnection phone 1 initServer)) ''u1'')
     \<noteq> Some (Some 9)"
  by (simp add: getUserConnection_def onMessage_registry_other onConnection_fields
        initServer_def phone_def)


section \<open>Milestones\<close>

lemma jsRem10_zero_iff: "jsRem v 10 = 0 \<longleftrightarrow> (\<exists>k::int. v = 10 * of_int k)"
proof
  assume "jsRem v 10 = 0"
  then have "v = 10 * of_int (jsTrunc (v / 10))" by (simp add: jsRem_def)
  then show "\<exists>k::int. v = 10 * of_int k" ..
next
  assume "\<exists>k::int. v = 10 * of_int k"
  then obtain k :: int where k: "v = 10 * of_int k" ..
  then have "v / 10 = of_int k" by simp
  then have "jsTrunc (v / 10) = k" by (simp add: jsTrunc_def)
  with k show "jsRem v 10 = 0" by (simp add: jsRem_def)
qed

lemma milestones_preSave: "milestones (progress (preSave now g)) = milestones (progress g)"
  by (simp add: preSave_def Let_def split: option.splits)

lemma milestones_updateProgress:
  "milestones (progress (updateProgress v n now g)) =
     (if truthyStr n \<or> jsRem v 10 = 0
      then milestones (progress g) @ [\<lparr>mvalue = v, achievedAt = now, mnote = n\<rparr>]
      else milestones (progress g))"
  by (simp add: updateProgress_def milestones_preSave Let_def)

lemma validated_note_truthy:
  "validateUpdateProgress b = Inr (v, n) \<Longrightarrow> truthyStr n = (n \<noteq> None)"
  by (auto simp: validateUpdateProgress_def truthyStr_def Let_def split: option.splits if_splits)

lemma putProgress_goal:
  "validateUpdateProgress b = Inr (v, n) \<Longrightarrow>
   fst (snd (putProgress reqUser b now st g)) = updateProgress v n now g"
  by (simp add: putProgress_def Let_def)

text \<open>
  C9. For every call \<open>updateProgress(v, note)\<close> that the progress route makes (the body has
  passed validation), a milestone \<open>{value: v, achievedAt: now, note}\<close> is appended to
  \<open>progress.milestones\<close> if and only if a note is supplied or \<open>v\<close> is an exact multiple of
  10; otherwise the list is unchanged. The stored goal of the route is the result of that
  call.
\<close>

theorem milestone_on_note_or_multiple_of_ten:
  assumes "validateUpdateProgress b = Inr (v, n)"
  shows "milestones (progress (updateProgress v n now g)) =
           (if n \<noteq> None \<or> (\<exists>k::int. v = 10 * of_int k)
            then milestones (progress g) @ [\<lparr>mvalue = v, achievedAt = now, mnote = n\<rparr>]
            else milestones (progress g))
       \<and> fst (snd (putProgress reqUser b now st g)) = updateProgress v n now g"
  using validated_note_truthy [OF assms] putProgress_goal [OF assms]
  by (simp add: milestones_updateProgress jsRem10_zero_iff)

theorem milestone_on_note_or_multiple_of_ten_witness:
  "milestones (progress (updateProgress 20 None 7 weightGoal))
     = [\<lparr>mvalue = 20, achievedAt = 7, mnote = None\<rparr>]
   \<and> milestones (progress (updateProgress 12.5 (Some ''halfway'') 7 weightGoal))
     = [\<lparr>mvalue = 12.5, achievedAt = 7, mnote = Some ''halfway''\<rparr>]
   \<and> milestones (progress (updateProgress 12.5 None 7 weightGoal)) = []"
proof -
  have v1: "validateUpdateProgress \<lparr>pvalue = Some 20, pnote = None\<rparr> = Inr (20, None)"
    by (simp add: validateUpdateProgress_def)
  have v2: "validateUpdateProgress \<lparr>pvalue = Some 12.5, pnote = Some ''halfway''\<rparr>
              = Inr (12.5, Some ''halfway'')"
    by (simp add: validateUpdateProgress_def)
  have v3: "validateUpdateProgress \<lparr>pvalue = Some 12.5, pnote = None\<rparr> = Inr (12.5, None)"
    by (simp add: validateUpdateProgress_def)
  have m: "milestones (progress weightGoal) = []" by (simp add: weightGoal_def)
  have k1: "\<exists>k::int. (20::real) = 10 * of_int k"
    by (rule exI [of _ 2]) simp
  have k3: "\<not> (\<exists>k::int. (12.5::real) = 10 * of_int k)"
  proof
    assume "\<exists>k::int. (12.5::real) = 10 * of_int k"
    then obtain k :: int where "(12.5::real) = 10 * of_int k" ..
    then have "(125::real) = of_int (100 * k)" by simp
    then have "(125::int) = 100 * k" by linarith
    then show False by presburger
  qed
  from milestone_on_note_or_multiple_of_ten [OF v1, of 7 weightGoal] k1 m
  have a: "milestones (progress (updateProgress 20 None 7 weightGoal))
     = [\<lparr>mvalue = 20, achievedAt = 7, mnote = None\<rparr>]" by simp
  from milestone_on_note_or_multiple_of_ten [OF v2, of 7 weightGoal] m
  have b: "milestones (progress (updateProgress 12.5 (Some ''halfway'') 7 weightGoal))
     = [\<lparr>mvalue = 12.5, achievedAt = 7, mnote = Some ''halfway''\<rparr>]" by simp
  from milestone_on_note_or_multiple_of_ten [OF v3, of 7 weightGoal] k3 m
  have c: "milestones (progress (updateProgress 12.5 None 7 weightGoal)) = []" by simp
  from a b c show ?thesis by blast
qed


section \<open>Progress that reaches the target\<close>

lemma updateProgress_reaches_target:
  assumes "gtype g = Target" and "targetValue g = Some t" and "0 < t" and "t \<le> v"
    and "status g = Active"
  shows "status (updateProgress v n now g) = Completed"
    and "completedAt (updateProgress v n now g) = Some now"
proof -
  have "100 \<le> fmul (fdiv v t) 100" using assms(3,4) by (rule product_ge_100)
  then have "100 \<le> Math_round (fmul (fdiv v t) 100)" by (rule Math_round_ge_100)
  then have m: "min (Math_round (fmul (fdiv v t) 100)) 100 = 100" by simp
  have t0: "t \<noteq> 0" using assms(3) by simp
  show "status (updateProgress v n now g) = Completed"
    using assms(1,2,5) t0 m by (simp add: updateProgress_def preSave_def Let_def)
  show "completedAt (updateProgress v n now g) = Some now"
    using assms(1,2,5) t0 m by (simp add: updateProgress_def preSave_def Let_def)
qed

lemma sendToUser_twice:
  assumes "reachable st" and "getUserConnection st u = Some c"
  shows "outbox (snd (sendToUser u ev2 d2 now (snd (sendToUser u ev1 d1 now st)))) =
           outbox st @ [\<lparr>recipient = sid (socket c), event = ev1,
                           payload = mapSet ''timestamp'' (JDate now) d1\<rparr>,
                        \<lparr>recipient = sid (socket c), event = ev2,
                           payload = mapSet ''timestamp'' (JDate now) d2\<rparr>]"
proof -
  let ?st1 = "snd (sendToUser u ev1 d1 now st)"
  have r1: "reachable ?st1" using assms(1) by (rule reachable.send)
  have c1: "getUserConnection ?st1 u = Some c"
    using assms(2) by (simp add: getUserConnection_def)
  show ?thesis
    using sendToUser_registered(2) [OF r1 c1, of ev2 d2 now]
          sendToUser_registered(2) [OF assms, of ev1 d1 now]
    by simp
qed

lemma laptopOnly_reachable: "reachable laptopOnly"
  unfolding laptopOnly_def
  by (rule reachable.disconnect [OF twoDevices_reachable]) (simp add: twoDevices_value)

lemma laptopOnly_value:
  "activeConnections laptopOnly = []"
  "sockets laptopOnly = [laptop]"
  by (simp_all add: laptopOnly_def onDisconnect_fields twoDevices_value phone_def laptop_def)

lemma putProgress_server:
  assumes "validateUpdateProgress b = Inr (v, n)" and "status (updateProgress v n now g) = Completed"
  shows "snd (snd (putProgress reqUser b now st g)) =
           snd (sendToUser reqUser ''goal:completed''
                  [(''id'', JStr (gid (updateProgress v n now g))),
                   (''title'', JStr (title (updateProgress v n now g))),
                   (''completedAt'', optDate (completedAt (updateProgress v n now g))),
                   (''celebration'', JBool True)] now
                  (snd (sendToUser reqUser ''goal:progress-updated''
                          [(''id'', JStr (gid (updateProgress v n now g))),
                           (''title'', JStr (title (updateProgress v n now g))),
                           (''progress'', progressJson (progress (updateProgress v n now g))),
                           (''completed'', JBool (status (updateProgress v n now g) = Completed))]
                          now st)))"
  using assms by (simp add: putProgress_def Let_def)

text \<open>
  C3, amended. For an active goal of type target with \<open>target.value = t > 0\<close>, a progress
  request with value \<open>v \<ge> t\<close> stores the goal as completed. When the registry holds a
  connection for the user, that connection receives exactly two frames from the request,
  \<open>goal:progress-updated\<close> first and \<open>goal:completed\<close> second; when the registry holds no
  entry for the user, the request delivers nothing.
\<close>

theorem progress_to_target_completes_in_order:
  assumes "gtype g = Target" and "targetValue g = Some t" and "0 < t" and "status g = Active"
    and "validateUpdateProgress b = Inr (v, n)" and "t \<le> v"
    and "reachable st"
  shows "status (fst (snd (putProgress reqUser b now st g))) = Completed
       \<and> (\<forall>c. getUserConnection st reqUser = Some c \<longrightarrow>
             map event (delivered st (snd (snd (putProgress reqUser b now st g))))
               = [''goal:progress-updated'', ''goal:completed'']
           \<and> map recipient (delivered st (snd (snd (putProgress reqUser b now st g))))
               = [sid (socket c), sid (socket c)])
       \<and> (getUserConnection st reqUser = None \<longrightarrow>
             delivered st (snd (snd (putProgress reqUser b now st g))) = [])"
proof -
  let ?g = "updateProgress v n now g"
  have compl: "status ?g = Completed"
    using assms(1,2,3,6,4) by (rule updateProgress_reaches_target(1))
  have goal: "fst (snd (putProgress reqUser b now st g)) = ?g"
    using assms(5) by (rule putProgress_goal)
  note srv = putProgress_server [OF assms(5) compl, of reqUser st]
  have some: "map event (delivered st (snd (snd (putProgress reqUser b now st g))))
               = [''goal:progress-updated'', ''goal:completed'']
           \<and> map recipient (delivered st (snd (snd (putProgress reqUser b now st g))))
               = [sid (socket c), sid (socket c)]"
    if c: "getUserConnection st reqUser = Some c" for c
  proof -
    have "\<exists>d1 d2. delivered st (snd (snd (putProgress reqUser b now st g))) =
            [\<lparr>recipient = sid (socket c), event = ''goal:progress-updated'', payload = d1\<rparr>,
             \<lparr>recipient = sid (socket c), event = ''goal:completed'', payload = d2\<rparr>]"
      unfolding srv
      by (intro exI, rule delivered_append, rule sendToUser_twice [OF assms(7) c])
    then show ?thesis by auto
  qed
  have none: "delivered st (snd (snd (putProgress reqUser b now st g))) = []"
    if "getUserConnection st reqUser = None"
    unfolding srv using that by (simp add: sendToUser_unregistered delivered_def)
  from compl goal some none show ?thesis by simp
qed

theorem progress_to_target_completes_in_order_witness:
  "status (fst (snd (putProgress ''u1'' \<lparr>pvalue = Some 65, pnote = None\<rparr> 9 twoDevices weightGoal)))
     = Completed
   \<and> map event (delivered twoDevices
        (snd (snd (putProgress ''u1'' \<lparr>pvalue = Some 65, pnote = None\<rparr> 9 twoDevices weightGoal))))
     = [''goal:progress-updated'', ''goal:completed'']
   \<and> map recipient (delivered twoDevices
        (snd (snd (putProgress ''u1'' \<lparr>pvalue = Some 65, pnote = None\<rparr> 9 twoDevices weightGoal))))
     = [''s2'', ''s2'']
   \<and> delivered twoDevices
        (snd (snd (putProgress ''u2'' \<lparr>pvalue = Some 65, pnote = None\<rparr> 9 twoDevices weightGoal)))
     = []"
proof -
  have g: "gtype weightGoal = Target" "targetValue weightGoal = Some 65" "status weightGoal = Active"
    by (simp_all add: weightGoal_def)
  have t: "(0::real) < 65" "(65::real) \<le> 65" by simp_all
  have v: "validateUpdateProgress \<lparr>pvalue = Some 65, pnote = None\<rparr> = Inr (65, None)"
    by (simp add: validateUpdateProgress_def)
  have c: "getUserConnection twoDevices ''u1'' =
            Some \<lparr>socketId = ''s2'', socket = laptop, connectedAt = 2,
                  lastActivity = None, cstatus = None\<rparr>"
    by (simp add: getUserConnection_def twoDevices_value)
  have n: "getUserConnection twoDevices ''u2'' = None"
    by (simp add: getUserConnection_def twoDevices_value)
  note h1 = progress_to_target_completes_in_order
         [OF g(1,2) t(1) g(3) v t(2) twoDevices_reachable, of "''u1''" 9]
  note h2 = progress_to_target_completes_in_order
         [OF g(1,2) t(1) g(3) v t(2) twoDevices_reachable, of "''u2''" 9]
  from h1 c have a: "status (fst (snd (putProgress ''u1'' \<lparr>pvalue = Some 65, pnote = None\<rparr> 9 twoDevices weightGoal)))
     = Completed
   \<and> map event (delivered twoDevices
        (snd (snd (putProgress ''u1'' \<lparr>pvalue = Some 65, pnote = None\<rparr> 9 twoDevices weightGoal))))
     = [''goal:progress-updated'', ''goal:completed'']
   \<and> map recipient (delivered twoDevices
        (snd (snd (putProgress ''u1'' \<lparr>pvalue = Some 65, pnote = None\<rparr> 9 twoDevices weightGoal))))
     = [''s2'', ''s2'']"
    by (simp add: laptop_def)
  from h2 n have b: "delivered twoDevices
        (snd (snd (putProgress ''u2'' \<lparr>pvalue = Some 65, pnote = None\<rparr> 9 twoDevices weightGoal)))
     = []" by blast
  from a b show ?thesis by blast
qed

text \<open>
  The claim as stated fails: after the phone of \<open>u1\<close> has disconnected, the laptop of \<open>u1\<close>
  is still connected, the progress request completes the goal, and no frame is delivered.
\<close>

theorem progress_unobserved_counterexample:
  "laptop \<in> set (sockets laptopOnly) \<and> userId laptop = ''u1''
   \<and> status (fst (snd (putProgress ''u1'' \<lparr>pvalue = Some 65, pnote = None\<rparr> 9 laptopOnly weightGoal)))
       = Completed
   \<and> delivered laptopOnly
        (snd (snd (putProgress ''u1'' \<lparr>pvalue = Some 65, pnote = None\<rparr> 9 laptopOnly weightGoal)))
       = []
   \<and> map event (delivered laptopOnly
        (snd (snd (putProgress ''u1'' \<lparr>pvalue = Some 65, pnote = None\<rparr> 9 laptopOnly weightGoal))))
       \<noteq> [''goal:progress-updated'', ''goal:completed'']"
proof -
  have g: "gtype weightGoal = Target" "targetValue weightGoal = Some 65" "status weightGoal = Active"
    by (simp_all add: weightGoal_def)
  have t: "(0::real) < 65" "(65::real) \<le> 65" by simp_all
  have v: "validateUpdateProgress \<lparr>pvalue = Some 65, pnote = None\<rparr> = Inr (65, None)"
    by (simp add: validateUpdateProgress_def)
  have compl: "status (updateProgress 65 None 9 weightGoal) = Completed"
    using g(1,2) t g(3) by (rule updateProgress_reaches_target(1))
  have n: "getUserConnection laptopOnly ''u1'' = None"
    by (simp add: getUserConnection_def laptopOnly_value)
  have a: "status (fst (snd (putProgress ''u1'' \<lparr>pvalue = Some 65, pnote = None\<rparr> 9 laptopOnly weightGoal)))
       = Completed"
    using compl by (simp add: putProgress_goal [OF v])
  have b: "delivered laptopOnly
        (snd (snd (putProgress ''u1'' \<lparr>pvalue = Some 65, pnote = None\<rparr> 9 laptopOnly weightGoal)))
       = []"
    unfolding putProgress_server [OF v compl]
    using n by (simp add: sendToUser_unregistered delivered_def)
  have c: "laptop \<in> set (sockets laptopOnly)" "userId laptop = ''u1''"
    by (simp_all add: laptopOnly_value laptop_def)
  from a b c show ?thesis by simp
qed


section \<open>Refused transitions and the terminal state\<close>

text \<open>
  C4. A request to complete a goal that is already completed is refused with an error
  response; the stored goal (so its status and percentage) is unchanged and no frame is
  delivered. The same holds for a request to resume a goal that is not paused.
\<close>

theorem invalid_transition_refused:
  "(status g = Completed \<longrightarrow>
      fst (putComplete reqUser n now st g) = Failure 400 ''Goal is already completed''

      \<and> fst (snd (putComplete reqUser n now st g)) = g
      \<and> status (fst (snd (putComplete reqUser n now st g))) = status g
      \<and> percentage (progress (fst (snd (putComplete reqUser n now st g)))) = percentage (progress g)
      \<and> delivered st (snd (snd (putComplete reqUser n now st g))) = [])
   \<and> (status g \<noteq> Paused \<longrightarrow>
      fst (putResume reqUser now st g) = Failure 400 ''Only paused goals can be resumed''

      \<and> fst (snd (putResume reqUser now st g)) = g
      \<and> status (fst (snd (putResume reqUser now st g))) = status g
      \<and> percentage (progress (fst (snd (putResume reqUser now st g)))) = percentage (progress g)
      \<and> delivered st (snd (snd (putResume reqUser now st g))) = [])"
  by (simp add: putComplete_def putResume_def delivered_def)

theorem invalid_transition_refused_witness:
  "fst (putComplete ''u1'' (Some ''again'') 9 twoDevices doneGoal) = Failure 400 ''Goal is already completed''
   \<and> fst (snd (putComplete ''u1'' (Some ''again'') 9 twoDevices doneGoal)) = doneGoal
   \<and> delivered twoDevices (snd (snd (putComplete ''u1'' (Some ''again'') 9 twoDevices doneGoal))) = []
   \<and> fst (putResume ''u1'' 9 twoDevices weightGoal) = Failure 400 ''Only paused goals can be resumed''
   \<and> fst (snd (putResume ''u1'' 9 twoDevices weightGoal)) = weightGoal
   \<and> delivered twoDevices (snd (snd (putResume ''u1'' 9 twoDevices weightGoal))) = []"
proof -
  have d: "status doneGoal = Completed" by (simp add: doneGoal_def)
  have w: "status weightGoal \<noteq> Paused" by (simp add: weightGoal_def)
  from invalid_transition_refused [of doneGoal "''u1''" "Some ''again''" 9 twoDevices] d
  have a: "fst (putComplete ''u1'' (Some ''again'') 9 twoDevices doneGoal)
             = Failure 400 ''Goal is already completed''
   \<and> fst (snd (putComplete ''u1'' (Some ''again'') 9 twoDevices doneGoal)) = doneGoal
   \<and> delivered twoDevices (snd (snd (putComplete ''u1'' (Some ''again'') 9 twoDevices doneGoal))) = []"
    by blast
  from invalid_transition_refused [of weightGoal "''u1''" _ 9 twoDevices] w
  have b: "fst (putResume ''u1'' 9 twoDevices weightGoal)
             = Failure 400 ''Only paused goals can be resumed''
   \<and> fst (snd (putResume ''u1'' 9 twoDevices weightGoal)) = weightGoal
   \<and> delivered twoDevices (snd (snd (putResume ''u1'' 9 twoDevices weightGoal))) = []"
    by blast
  from a b show ?thesis by blast
qed

lemma status_preSave_completed: "status g = Completed \<Longrightarrow> status (preSave now g) = Completed"
  by (simp add: preSave_def Let_def split: option.splits)

lemma status_updateProgress_completed:
  "status g = Completed \<Longrightarrow> status (updateProgress v n now g) = Completed"
  by (simp add: updateProgress_def Let_def status_preSave_completed)

lemma status_findByIdAndUpdate:
  "status (findByIdAndUpdate b g) = (case ustatus b of None \<Rightarrow> status g | Some x \<Rightarrow> x)"
  by (simp add: findByIdAndUpdate_def Let_def split: option.splits)

lemma validateUpdate_status: "validateUpdate body = Inr b \<Longrightarrow> ustatus b = ustatus body"
  by (auto simp: validateUpdate_def Let_def split: if_splits)

lemma putUpdate_status:
  "status (fst (snd (putUpdate reqUser body now st g))) =
     (case validateUpdate body of
        Inl errors \<Rightarrow> status g
      | Inr b \<Rightarrow> (case ustatus body of None \<Rightarrow> status g | Some x \<Rightarrow> x))"
proof (cases "validateUpdate body")
  case (Inl errors)
  then show ?thesis by (simp add: putUpdate_def)
next
  case (Inr b)
  then show ?thesis
    using validateUpdate_status [OF Inr]
    by (simp add: putUpdate_def Let_def status_findByIdAndUpdate)
qed

lemma applyOp_completed:
  assumes "status g = Completed" and "\<not> setsStatus op"
  shows "status (fst (snd (applyOp reqUser op now st g))) = Completed"
proof (cases op)
  case (OpUpdate body)
  then have "ustatus body = None" using assms(2) by simp
  then show ?thesis using OpUpdate assms(1)
    by (simp add: putUpdate_status split: sum.splits)
next
  case (OpProgress body)
  then show ?thesis using assms(1)
    by (simp add: putProgress_def Let_def status_updateProgress_completed split: sum.splits prod.splits)
next
  case (OpComplete n)
  then show ?thesis using assms(1) by (simp add: putComplete_def)
next
  case (OpPause r)
  then show ?thesis using assms(1) by (simp add: putPause_def)
next
  case OpResume
  then show ?thesis using assms(1) by (simp add: putResume_def)
qed

lemma status_preSave:
  "status (preSave now g) = status g \<or> (status g = Active \<and> status (preSave now g) = Completed)"
  by (simp add: preSave_def Let_def split: option.splits)

lemma status_preSave_not_active: "status g \<noteq> Active \<Longrightarrow> status (preSave now g) = status g"
  using status_preSave [of now g] by blast

lemma status_updateProgress:
  "status (updateProgress v n now g) = status g
   \<or> (status g = Active \<and> status (updateProgress v n now g) = Completed)"
proof -
  let ?g = "(if truthyStr n \<or> jsRem v 10 = 0
             then g\<lparr>progress := (progress g)\<lparr>current := Some v, lastUpdated := now,
                     milestones := milestones (progress g) @ [\<lparr>mvalue = v, achievedAt = now, mnote = n\<rparr>]\<rparr>\<rparr>
             else g\<lparr>progress := (progress g)\<lparr>current := Some v, lastUpdated := now\<rparr>\<rparr>)"
  have u: "updateProgress v n now g = preSave now ?g"
    by (simp add: updateProgress_def Let_def)
  have s: "status ?g = status g" by simp
  show ?thesis using status_preSave [of now ?g] unfolding u s .
qed

lemma status_complete: "status (complete n now g) = Completed"
  by (cases n) (simp_all add: complete_def Let_def status_preSave_not_active)

lemma status_pause: "status (pause r now g) = Paused"
  by (cases r) (simp_all add: pause_def Let_def status_preSave_not_active)

lemma status_resume: "status (resume now g) = Active \<or> status (resume now g) = Completed"
  using status_preSave [of now "g\<lparr>status := Active\<rparr>"] by (simp add: resume_def)

lemma progress_findByIdAndUpdate: "progress (findByIdAndUpdate b g) = progress g"
  by (simp add: findByIdAndUpdate_def Let_def split: option.splits)

lemma progress_putUpdate: "progress (fst (snd (putUpdate reqUser body now st g))) = progress g"
  by (simp add: putUpdate_def Let_def progress_findByIdAndUpdate split: sum.splits)

lemma applyOp_step:
  assumes "\<not> setsStatus op"
  shows "status (fst (snd (applyOp reqUser op now st g))) = status g
       \<or> (status g \<noteq> Completed \<and> status (fst (snd (applyOp reqUser op now st g))) = Completed)
       \<or> (status g = Active \<and> (\<exists>r. op = OpPause r)
            \<and> status (fst (snd (applyOp reqUser op now st g))) = Paused)
       \<or> (status g = Paused \<and> op = OpResume
            \<and> status (fst (snd (applyOp reqUser op now st g))) = Active)"
proof (cases op)
  case (OpUpdate body)
  then have "ustatus body = None" using assms by simp
  then show ?thesis using OpUpdate by (simp add: putUpdate_status split: sum.splits)
next
  case (OpProgress body)
  show ?thesis
  proof (cases "validateUpdateProgress body")
    case (Inl errors)
    then show ?thesis using OpProgress by (simp add: putProgress_def)
  next
    case (Inr p)
    obtain v n where p: "p = (v, n)" by (cases p)
    have "fst (snd (applyOp reqUser op now st g)) = updateProgress v n now g"
      using OpProgress Inr p by (simp add: putProgress_goal)
    then show ?thesis using status_updateProgress [of v n now g] by auto
  qed
next
  case (OpComplete n)
  then show ?thesis by (simp add: putComplete_def Let_def status_complete)
next
  case (OpPause r)
  then show ?thesis by (simp add: putPause_def Let_def status_pause)
next
  case OpResume
  then show ?thesis using status_resume [of now g] by (auto simp: putResume_def Let_def)
qed

text \<open>
  C5, amended. Under every operation that does not write the status field (progress,
  complete, pause and resume requests, and update requests whose body has no \<open>status\<close>),
  status transitions are monotonic except explicit pause and resume: one request leaves the
  status as it is, or moves a goal that is not completed to completed, or pauses an active
  goal, or resumes a paused one; and completed is terminal: after any run of such requests
  a completed goal is still completed. Progress is mutated only by the transition routes:
  an update request never changes it. An update request whose body passes validation and
  carries \<open>status\<close> stores that status, whatever the goal's status was.
\<close>

theorem completed_terminal_unless_status_written:
  "(\<not> setsStatus op \<longrightarrow>
      status (fst (snd (applyOp reqUser op now st g))) = status g
      \<or> (status g \<noteq> Completed \<and> status (fst (snd (applyOp reqUser op now st g))) = Completed)
      \<or> (status g = Active \<and> (\<exists>r. op = OpPause r)
           \<and> status (fst (snd (applyOp reqUser op now st g))) = Paused)
      \<or> (status g = Paused \<and> op = OpResume
           \<and> status (fst (snd (applyOp reqUser op now st g))) = Active))
   \<and> (status g = Completed \<and> (\<forall>(op, now) \<in> set ops. \<not> setsStatus op) \<longrightarrow>
      status (fst (runOps reqUser ops st g)) = Completed)
   \<and> progress (fst (snd (putUpdate reqUser body now' st g))) = progress g
   \<and> (\<forall>b x. validateUpdate body = Inr b \<and> ustatus body = Some x \<longrightarrow>
         status (fst (snd (putUpdate reqUser body now' st g))) = x)"
proof -
  have step: "status (fst (snd (applyOp reqUser op now st g))) = status g
      \<or> (status g \<noteq> Completed \<and> status (fst (snd (applyOp reqUser op now st g))) = Completed)
      \<or> (status g = Active \<and> (\<exists>r. op = OpPause r)
           \<and> status (fst (snd (applyOp reqUser op now st g))) = Paused)
      \<or> (status g = Paused \<and> op = OpResume
           \<and> status (fst (snd (applyOp reqUser op now st g))) = Active)"
    if "\<not> setsStatus op"
    using that by (rule applyOp_step)
  have run: "status (fst (runOps reqUser ops st g)) = Completed"
    if "status g = Completed" "\<forall>(op, now) \<in> set ops. \<not> setsStatus op"
    using that
  proof (induction ops arbitrary: st g)
    case Nil
    then show ?case by simp
  next
    case (Cons a ops)
    obtain op now where a: "a = (op, now)" by (cases a)
    obtain r g' st' where step: "applyOp reqUser op now st g = (r, g', st')"
      by (cases "applyOp reqUser op now st g")
    have "\<not> setsStatus op" using Cons.prems(2) a by simp
    with Cons.prems(1) have "status (fst (snd (applyOp reqUser op now st g))) = Completed"
      by (rule applyOp_completed)
    then have g': "status g' = Completed" using step by simp
    have rest: "\<forall>(op, now) \<in> set ops. \<not> setsStatus op" using Cons.prems(2) by simp
    have "status (fst (runOps reqUser ops st' g')) = Completed"
      using g' rest by (rule Cons.IH)
    then show ?case using a step by simp
  qed
  have prog: "progress (fst (snd (putUpdate reqUser body now' st g))) = progress g"
    by (rule progress_putUpdate)
  have upd: "status (fst (snd (putUpdate reqUser body now' st g))) = x"
    if "validateUpdate body = Inr b" "ustatus body = Some x" for b x
    using that by (simp add: putUpdate_status)
  from step run prog upd show ?thesis by blast
qed

theorem completed_terminal_unless_status_written_witness:
  "status (fst (snd (applyOp ''u1'' (OpPause None) 6 twoDevices weightGoal))) = Paused
   \<and> status (fst (runOps ''u1''
            [(OpProgress \<lparr>pvalue = Some 10, pnote = None\<rparr>, 6), (OpPause None, 7), (OpResume, 8),
             (OpComplete None, 9)] twoDevices doneGoal)) = Completed
   \<and> progress (fst (snd (putUpdate ''u1'' reopenBody 9 twoDevices doneGoal))) = progress doneGoal
   \<and> status (fst (snd (putUpdate ''u1'' reopenBody 9 twoDevices doneGoal))) = Active"
proof -
  let ?ops = "[(OpProgress \<lparr>pvalue = Some 10, pnote = None\<rparr>, 6), (OpPause None, 7), (OpResume, 8),
               (OpComplete None, 9)]"
  have d: "status doneGoal = Completed" by (simp add: doneGoal_def)
  have w: "status weightGoal = Active" by (simp add: weightGoal_def)
  have o: "\<forall>(op, now) \<in> set ?ops. \<not> setsStatus op" by simp
  have p: "\<not> setsStatus (OpPause None)" by simp
  have v: "validateUpdate reopenBody = Inr reopenBody"
    by (simp add: validateUpdate_def reopenBody_def strBetween_def)
  have s: "ustatus reopenBody = Some Active" by (simp add: reopenBody_def)
  have paused: "status (fst (snd (applyOp ''u1'' (OpPause None) 6 twoDevices weightGoal))) = Paused"
    using w by (simp add: putPause_def Let_def status_pause)
  note h = completed_terminal_unless_status_written
             [of "OpPause None" "''u1''" 6 twoDevices doneGoal ?ops reopenBody 9]
  from h d o have a: "status (fst (runOps ''u1'' ?ops twoDevices doneGoal)) = Completed" by blast
  from h have c: "progress (fst (snd (putUpdate ''u1'' reopenBody 9 twoDevices doneGoal))) = progress doneGoal"
    by blast
  from h v s have b: "status (fst (snd (putUpdate ''u1'' reopenBody 9 twoDevices doneGoal))) = Active"
    by blast
  from paused a b c show ?thesis by blast
qed

text \<open>
  The claim as stated fails: one update request with \<open>status: 'active'\<close> moves a completed
  goal back to active.
\<close>

theorem completed_reopened_counterexample:
  "status doneGoal = Completed
   \<and> status (fst (runOps ''u1'' [(OpUpdate reopenBody, 9)] initServer doneGoal)) = Active"
  by (simp add: doneGoal_def reopenBody_def putUpdate_def validateUpdate_def strBetween_def
        findByIdAndUpdate_def sendToUser_def initServer_def Let_def)

end
